theory Spec2Isabelle
  imports Complex_Main
begin

section \<open>Q-Learning-Bot: the grid world and the tabular learner\<close>

text \<open>
  A shallow embedding of \<^verbatim>\<open>environment.py\<close>, \<^verbatim>\<open>robot.py\<close> and the loop of
  \<^verbatim>\<open>main.py\<close>. Python exceptions are values of \<open>error\<close>, the objects are records
  passed and returned explicitly, and every call into numpy's random generator takes the
  sample it consumes as an argument.

  Numbers. Python ints are \<open>int\<close>. Python floats are modelled without rounding and
  without overflow: the constructor arguments of the robot are \<open>real\<close>, and the entries of
  the Q-table are \<open>fl\<close>, the reals extended with the two infinities and NaN, because
  \<^verbatim>\<open>max_reachable_q\<close> starts its scan at \<^verbatim>\<open>-float('inf')\<close>.
\<close>

subsection \<open>Errors\<close>

datatype error = IndexError | KeyError | ValueError

definition bind_err :: "error + 'a \<Rightarrow> ('a \<Rightarrow> error + 'b) \<Rightarrow> error + 'b" where
  "bind_err m f = (case m of Inl e \<Rightarrow> Inl e | Inr x \<Rightarrow> f x)"

subsection \<open>Floats with infinities and NaN\<close>

datatype fl = Fin real | PInf | NInf | NaN

fun fl_neg :: "fl \<Rightarrow> fl" where
  "fl_neg (Fin a) = Fin (- a)"
| "fl_neg PInf = NInf"
| "fl_neg NInf = PInf"
| "fl_neg NaN = NaN"

fun fl_add :: "fl \<Rightarrow> fl \<Rightarrow> fl" where
  "fl_add NaN y = NaN"
| "fl_add x NaN = NaN"
| "fl_add (Fin a) (Fin b) = Fin (a + b)"
| "fl_add PInf NInf = NaN"
| "fl_add NInf PInf = NaN"
| "fl_add PInf y = PInf"
| "fl_add x PInf = PInf"
| "fl_add NInf y = NInf"
| "fl_add x NInf = NInf"

definition fl_sub :: "fl \<Rightarrow> fl \<Rightarrow> fl" where
  "fl_sub x y = fl_add x (fl_neg y)"

fun fl_sgn :: "fl \<Rightarrow> int" where
  "fl_sgn (Fin a) = (if a < 0 then - 1 else if a = 0 then 0 else 1)"
| "fl_sgn PInf = 1"
| "fl_sgn NInf = - 1"
| "fl_sgn NaN = 0"

fun fl_mul :: "fl \<Rightarrow> fl \<Rightarrow> fl" where
  "fl_mul NaN y = NaN"
| "fl_mul x NaN = NaN"
| "fl_mul (Fin a) (Fin b) = Fin (a * b)"
| "fl_mul x y =
     (if fl_sgn x * fl_sgn y = 0 then NaN
      else if 0 < fl_sgn x * fl_sgn y then PInf else NInf)"

text \<open>\<open>fl_gt x y\<close> is the comparison \<^verbatim>\<open>x > y\<close>, \<open>fl_le x y\<close> is \<^verbatim>\<open>x <= y\<close>; both are false
  as soon as one side is NaN.\<close>

fun fl_gt :: "fl \<Rightarrow> fl \<Rightarrow> bool" where
  "fl_gt NaN y = False"
| "fl_gt x NaN = False"
| "fl_gt (Fin a) (Fin b) = (b < a)"
| "fl_gt PInf PInf = False"
| "fl_gt PInf y = True"
| "fl_gt x PInf = False"
| "fl_gt NInf y = False"
| "fl_gt x NInf = True"

fun fl_le :: "fl \<Rightarrow> fl \<Rightarrow> bool" where
  "fl_le NaN y = False"
| "fl_le x NaN = False"
| "fl_le x y = (\<not> fl_gt x y)"

subsection \<open>numpy arrays of the shapes (5, 5) and (5, 5, 4)\<close>

text \<open>
  An array is a function of its indices. A state is the Python list \<^verbatim>\<open>[row, col]\<close> of
  two ints; an action is one of 0 (up), 1 (left), 2 (down), 3 (right). numpy accepts an
  index \<open>i\<close> on an axis of length \<open>n\<close> when \<open>- n \<le> i < n\<close>, a negative one counting
  from the end, and raises IndexError otherwise.
\<close>

type_synonym state = "int \<times> int"
type_synonym 'a array2 = "nat \<Rightarrow> nat \<Rightarrow> 'a"
type_synonym 'a array3 = "nat \<Rightarrow> nat \<Rightarrow> nat \<Rightarrow> 'a"

definition height :: nat where "height = 5"
definition width :: nat where "width = 5"

definition np_index :: "nat \<Rightarrow> int \<Rightarrow> error + nat" where
  "np_index n i =
     (if 0 \<le> i \<and> i < int n then Inr (nat i)
      else if - int n \<le> i \<and> i < 0 then Inr (nat (i + int n))
      else Inl IndexError)"

definition index3 :: "state \<Rightarrow> nat \<Rightarrow> error + (nat \<times> nat \<times> nat)" where
  "index3 s a =
     bind_err (np_index height (fst s)) (\<lambda>r.
     bind_err (np_index width (snd s)) (\<lambda>c.
       if a < 4 then Inr (r, c, a) else Inl IndexError))"

definition get2 :: "'a array2 \<Rightarrow> state \<Rightarrow> error + 'a" where
  "get2 A s =
     bind_err (np_index height (fst s)) (\<lambda>r.
     bind_err (np_index width (snd s)) (\<lambda>c. Inr (A r c)))"

definition get3 :: "'a array3 \<Rightarrow> state \<Rightarrow> nat \<Rightarrow> error + 'a" where
  "get3 A s a = bind_err (index3 s a) (\<lambda>(r, c, k). Inr (A r c k))"

definition set2 :: "'a array2 \<Rightarrow> nat \<Rightarrow> nat \<Rightarrow> 'a \<Rightarrow> 'a array2" where
  "set2 A r c v = (\<lambda>i j. if i = r \<and> j = c then v else A i j)"

definition set3 :: "'a array3 \<Rightarrow> nat \<Rightarrow> nat \<Rightarrow> nat \<Rightarrow> 'a \<Rightarrow> 'a array3" where
  "set3 A r c a v = (\<lambda>i j k. if i = r \<and> j = c \<and> k = a then v else A i j k)"

text \<open>Slice assignment \<^verbatim>\<open>A[I, J, K] = v\<close>: each of \<open>I\<close>, \<open>J\<close>, \<open>K\<close> selects the indices
  of its axis (\<open>every\<close> is \<^verbatim>\<open>:\<close>, \<open>only n\<close> is the index \<^verbatim>\<open>n\<close>, \<open>from_to a b\<close> is
  \<^verbatim>\<open>a:b\<close>).\<close>

definition every :: "nat \<Rightarrow> bool" where "every i = True"
definition only :: "nat \<Rightarrow> nat \<Rightarrow> bool" where "only n i = (i = n)"
definition from_to :: "nat \<Rightarrow> nat \<Rightarrow> nat \<Rightarrow> bool" where "from_to a b i = (a \<le> i \<and> i < b)"

definition assign3 ::
  "(nat \<Rightarrow> bool) \<Rightarrow> (nat \<Rightarrow> bool) \<Rightarrow> (nat \<Rightarrow> bool) \<Rightarrow> 'a \<Rightarrow> 'a array3 \<Rightarrow> 'a array3" where
  "assign3 I J K v A = (\<lambda>i j k. if I i \<and> J j \<and> K k then v else A i j k)"

subsection \<open>numpy's random draws\<close>

text \<open>
  \<^verbatim>\<open>np.random.choice(n, p=p)\<close> rejects a weight vector that has the wrong length, a
  negative entry or a sum other than 1 (ValueError); otherwise it takes one uniform sample
  \<open>u\<close> of \<open>[0, 1)\<close> and returns the first index whose cumulative weight exceeds \<open>u\<close>
  (\<^verbatim>\<open>cdf.searchsorted(u, side='right')\<close>). The sample is an argument of the model.
\<close>

fun cumsum :: "real \<Rightarrow> real list \<Rightarrow> real list" where
  "cumsum acc [] = []"
| "cumsum acc (x # xs) = (acc + x) # cumsum (acc + x) xs"

definition np_random_choice :: "nat \<Rightarrow> real list \<Rightarrow> real \<Rightarrow> error + nat" where
  "np_random_choice n p u =
     (if length p \<noteq> n \<or> (\<exists>x \<in> set p. x < 0) \<or> sum_list p \<noteq> 1 then Inl ValueError
      else Inr (length (takeWhile (\<lambda>c. c \<le> u) (cumsum 0 p))))"

type_synonym draws4 = "real \<times> real \<times> real \<times> real"

text \<open>
  \<^verbatim>\<open>np.random.random_integers(low, high)\<close> draws from the closed range \<open>low..high\<close>. When
  the size \<open>high - low + 1\<close> of the range is a power of two, as in the one call of the
  source (\<open>0..3\<close>), numpy takes one 32-bit word of the generator, masks it with
  \<open>high - low\<close>, which is the word modulo the size, and adds \<open>low\<close>. The word \<open>w\<close> is an
  argument of the model; a word is a natural number below \<open>2 ^ 32\<close>. (For other sizes
  numpy redraws until the masked word is in range; the source has no such call.)
\<close>

definition np_random_integers :: "nat \<Rightarrow> nat \<Rightarrow> nat \<Rightarrow> nat" where
  "np_random_integers low high w = low + w mod (high - low + 1)"

subsection \<open>environment.py\<close>

record environment =
  board_rewards :: "int array2"
  allowed_actions :: "real array3"
  final_states :: "state list"
  robot_state :: state

definition Environment_init :: environment where
  "Environment_init =
     (let board_rewards0 = (\<lambda>i j. 0);
          board_rewards1 = set2 board_rewards0 1 1 (- 100);
          board_rewards2 = set2 board_rewards1 1 2 50;
          board_rewards3 = set2 board_rewards2 1 3 100;
          a0 = (\<lambda>i j k. 1);
          a1 = assign3 every (only 0) (only 1) 0 a0;
          a2 = assign3 every (only 4) (only 3) 0 a1;
          a3 = assign3 (only 0) every (only 0) 0 a2;
          a4 = assign3 (only 4) every (only 2) 0 a3;
          a5 = assign3 (from_to 1 4) every (only 3) 0 a4;
          a6 = assign3 (from_to 1 4) every (only 1) 0 a5;
          a7 = assign3 (only 0) (only 1) (only 2) 0 a6;
          a8 = assign3 (only 1) (only 2) (only 2) 0 a7;
          a9 = assign3 (only 0) (only 3) (only 2) 0 a8;
          a10 = assign3 (only 1) (only 1) (only 0) 0 a9;
          a11 = assign3 (only 2) (only 2) (only 0) 0 a10;
          a12 = assign3 (only 1) (only 3) (only 0) 0 a11
      in \<lparr> board_rewards = board_rewards3,
           allowed_actions = a12,
           final_states = [(1, 1), (1, 2), (1, 3)],
           robot_state = (0, 0) \<rparr>)"

definition reset :: "environment \<Rightarrow> environment" where
  "reset env = env\<lparr>robot_state := (0, 0)\<rparr>"

text \<open>The four weight vectors of \<^verbatim>\<open>receive_action\<close>, by intended action.\<close>

definition action_probs :: "real list list" where
  "action_probs =
     [[8/10, 1/10, 0, 1/10],
      [1/10, 8/10, 1/10, 0],
      [0, 1/10, 8/10, 1/10],
      [1/10, 0, 1/10, 8/10]]"

text \<open>The dict literal draws all four samples, in the order of its keys, and only then looks
  up \<^verbatim>\<open>action\<close>; a key outside 0..3 raises KeyError.\<close>

definition randomized_action :: "nat \<Rightarrow> draws4 \<Rightarrow> error + nat" where
  "randomized_action action us =
     (case us of (u0, u1, u2, u3) \<Rightarrow>
       bind_err (np_random_choice 4 (action_probs ! 0) u0) (\<lambda>c0.
       bind_err (np_random_choice 4 (action_probs ! 1) u1) (\<lambda>c1.
       bind_err (np_random_choice 4 (action_probs ! 2) u2) (\<lambda>c2.
       bind_err (np_random_choice 4 (action_probs ! 3) u3) (\<lambda>c3.
         if action < 4 then Inr ([c0, c1, c2, c3] ! action) else Inl KeyError)))))"

definition next_state :: "state \<Rightarrow> nat \<Rightarrow> error + state" where
  "next_state s a =
     (if a < 4
      then Inr ([(fst s - 1, snd s), (fst s, snd s - 1), (fst s + 1, snd s), (fst s, snd s + 1)] ! a)
      else Inl KeyError)"

text \<open>\<^verbatim>\<open>receive_action\<close> returns the environment after the call together with the triple
  \<^verbatim>\<open>(new state, reward, game_over)\<close>.\<close>

definition receive_action ::
  "environment \<Rightarrow> nat \<Rightarrow> draws4 \<Rightarrow> error + (environment \<times> state \<times> int \<times> bool)" where
  "receive_action env action us =
     (let state = robot_state env in
      bind_err (randomized_action action us) (\<lambda>ra.
      bind_err (get3 (allowed_actions env) state ra) (\<lambda>allowed.
        if allowed \<noteq> 0 then
          bind_err (next_state state ra) (\<lambda>s'.
            let env' = env\<lparr>robot_state := s'\<rparr>;
                game_over = (robot_state env' \<in> set (final_states env'))
            in bind_err (get2 (board_rewards env') (robot_state env')) (\<lambda>r.
                 Inr (env', robot_state env', r - 1, game_over)))
        else Inr (env, robot_state env, - 1, False))))"

subsection \<open>robot.py\<close>

record robot =
  alpha :: real
  epsilon :: real
  gamma :: real
  epsilon_decrease :: real
  actions :: "nat list"
  plotting :: bool
  iteration :: int
  Q_table :: "fl array3"
  game_over :: bool
  total_reward :: int

definition Robot_init :: "real \<Rightarrow> real \<Rightarrow> real \<Rightarrow> real \<Rightarrow> robot" where
  "Robot_init al eps ga dec =
     \<lparr> alpha = al, epsilon = eps, gamma = ga, epsilon_decrease = dec,
       actions = [0, 1, 2, 3], plotting = False, iteration = 0,
       Q_table = (\<lambda>i j k. Fin (- 1)), game_over = False, total_reward = 0 \<rparr>"

definition restart :: "robot \<Rightarrow> robot" where
  "restart rob =
     (let rob1 = rob\<lparr>iteration := iteration rob + 1\<rparr>;
          rob2 = rob1\<lparr>total_reward := 0\<rparr>;
          rob3 = rob2\<lparr>game_over := False\<rparr>
      in rob3\<lparr>epsilon := max (epsilon rob3 - epsilon_decrease rob3) 0\<rparr>)"

text \<open>The scan of \<^verbatim>\<open>max_reachable_q\<close> over \<^verbatim>\<open>self.actions\<close>; \<open>m\<close> is the running
  maximum.\<close>

fun max_reachable_q_scan ::
  "fl array3 \<Rightarrow> real array3 \<Rightarrow> state \<Rightarrow> nat list \<Rightarrow> fl \<Rightarrow> error + fl" where
  "max_reachable_q_scan Q A s [] m = Inr m"
| "max_reachable_q_scan Q A s (a # as) m =
     (case get3 A s a of
        Inl e \<Rightarrow> Inl e
      | Inr allowed \<Rightarrow>
          if allowed \<noteq> 0 then
            (case get3 Q s a of
               Inl e \<Rightarrow> Inl e
             | Inr q \<Rightarrow> max_reachable_q_scan Q A s as (if fl_gt q m then q else m))
          else max_reachable_q_scan Q A s as m)"

definition max_reachable_q :: "robot \<Rightarrow> state \<Rightarrow> real array3 \<Rightarrow> error + fl" where
  "max_reachable_q rob s A = max_reachable_q_scan (Q_table rob) A s (actions rob) NInf"

text \<open>
  \<^verbatim>\<open>np.argmax\<close> on a row: the index of the first maximal entry; an entry replaces the
  running maximum \<open>mp\<close> when \<^verbatim>\<open>not (entry <= mp)\<close>, and the scan stops at the first NaN.
\<close>

fun np_argmax_scan :: "fl \<Rightarrow> nat \<Rightarrow> nat \<Rightarrow> fl list \<Rightarrow> nat" where
  "np_argmax_scan mp ind i [] = ind"
| "np_argmax_scan mp ind i (x # xs) =
     (if mp = NaN then ind
      else if \<not> fl_le x mp then np_argmax_scan x i (Suc i) xs
      else np_argmax_scan mp ind (Suc i) xs)"

definition np_argmax :: "fl list \<Rightarrow> error + nat" where
  "np_argmax xs = (case xs of [] \<Rightarrow> Inl ValueError | x # ys \<Rightarrow> Inr (np_argmax_scan x 0 1 ys))"

text \<open>The row \<^verbatim>\<open>Q_table[state[0], state[1], :]\<close>.\<close>

definition q_row :: "fl array3 \<Rightarrow> state \<Rightarrow> error + fl list" where
  "q_row Q s =
     bind_err (np_index height (fst s)) (\<lambda>r.
     bind_err (np_index width (snd s)) (\<lambda>c. Inr (map (Q r c) [0, 1, 2, 3])))"

text \<open>
  The samples one call of \<^verbatim>\<open>update_bot\<close> consumes: \<open>d_best\<close> is the uniform sample behind
  \<^verbatim>\<open>np.random.choice([1, 0], p=[1-epsilon, epsilon])\<close>, \<open>d_explore\<close> the 32-bit word
  behind \<^verbatim>\<open>np.random.random_integers(0, 3)\<close> (drawn on the exploring branch only),
  \<open>d_kernel\<close> the four uniform samples of \<^verbatim>\<open>receive_action\<close>.
\<close>

record step_draws =
  d_best :: real
  d_explore :: nat
  d_kernel :: draws4

text \<open>The first lines of \<^verbatim>\<open>update_bot\<close>: the draw of \<^verbatim>\<open>take_best_action\<close>.\<close>

definition take_best_action :: "robot \<Rightarrow> step_draws \<Rightarrow> error + nat" where
  "take_best_action rob d =
     bind_err (np_random_choice 2 [1 - epsilon rob, epsilon rob] (d_best d)) (\<lambda>i.
       if i < 2 then Inr ([1, 0] ! i) else Inl IndexError)"

text \<open>... and the choice of the action on its two branches.\<close>

definition choose_action :: "robot \<Rightarrow> state \<Rightarrow> step_draws \<Rightarrow> error + nat" where
  "choose_action rob s d =
     bind_err (take_best_action rob d) (\<lambda>best.
       if best \<noteq> 0 then bind_err (q_row (Q_table rob) s) np_argmax
       else Inr (np_random_integers 0 3 (d_explore d)))"

text \<open>
  \<^verbatim>\<open>update_bot\<close>. The augmented assignment reads the old entry, evaluates the right-hand
  side on the table as it is before the store, and stores the sum. Plotting draws the
  board and changes neither object, so it is left out.
\<close>

definition update_bot :: "robot \<Rightarrow> environment \<Rightarrow> step_draws \<Rightarrow> error + (robot \<times> environment)" where
  "update_bot rob env d =
     (let state = robot_state env in
      bind_err (choose_action rob state d) (\<lambda>action.
      bind_err (receive_action env action (d_kernel d)) (\<lambda>(env', new_state, new_reward, done).
        let rob1 = rob\<lparr>game_over := done\<rparr>;
            rob2 = rob1\<lparr>total_reward := total_reward rob1 + new_reward\<rparr>
        in
        bind_err (index3 state action) (\<lambda>(r, c, a).
        let old = Q_table rob2 r c a in
        bind_err (max_reachable_q rob2 new_state (allowed_actions env')) (\<lambda>v.
          Inr (rob2\<lparr>Q_table := set3 (Q_table rob2) r c a
                 (fl_add old
                   (fl_mul (Fin (alpha rob2))
                     (fl_sub (fl_add (Fin (of_int new_reward)) (fl_mul (Fin (gamma rob2)) v))
                             (Q_table rob2 r c a))))\<rparr>,
               env'))))))"

text \<open>
  \<^verbatim>\<open>run_bot\<close>: the loop runs while \<^verbatim>\<open>game_over\<close> is false and takes the draws of one
  step from the list at each round. \<open>None\<close> means that the list ran out before the episode
  ended. The printing at the end of the episode is left out.
\<close>

fun run_loop ::
  "robot \<Rightarrow> environment \<Rightarrow> step_draws list \<Rightarrow> (error + (robot \<times> environment)) option" where
  "run_loop rob env ds =
     (if game_over rob then Some (Inr (rob, env))
      else (case ds of
              [] \<Rightarrow> None
            | d # ds' \<Rightarrow>
                (case update_bot rob env d of
                   Inl e \<Rightarrow> Some (Inl e)
                 | Inr (rob', env') \<Rightarrow> run_loop rob' env' ds')))"

definition run_bot ::
  "robot \<Rightarrow> environment \<Rightarrow> bool \<Rightarrow> step_draws list \<Rightarrow> (error + (robot \<times> environment)) option" where
  "run_bot rob env plot ds = run_loop (restart (rob\<lparr>plotting := plot\<rparr>)) env ds"

subsection \<open>main.py\<close>

text \<open>The body of the loop of \<^verbatim>\<open>main\<close> for episode \<open>i\<close> (plotting is switched on from
  episode 3000), and the loop itself. The source runs \<^verbatim>\<open>range(3050)\<close>; the model runs one
  episode per list of draws it is given, so a run of the source is a run over 3050 lists.\<close>

definition main_episode ::
  "robot \<Rightarrow> environment \<Rightarrow> nat \<Rightarrow> step_draws list \<Rightarrow> (error + (robot \<times> environment)) option" where
  "main_episode rob env i ds = run_bot rob (reset env) (3000 \<le> i) ds"

fun main_loop ::
  "robot \<Rightarrow> environment \<Rightarrow> nat \<Rightarrow> step_draws list list \<Rightarrow> (error + (robot \<times> environment)) option" where
  "main_loop rob env i [] = Some (Inr (rob, env))"
| "main_loop rob env i (ds # dss) =
     (case main_episode rob env i ds of
        None \<Rightarrow> None
      | Some (Inl e) \<Rightarrow> Some (Inl e)
      | Some (Inr (rob', env')) \<Rightarrow> main_loop rob' env' (Suc i) dss)"

definition main :: "step_draws list list \<Rightarrow> (error + (robot \<times> environment)) option" where
  "main dss = main_loop (Robot_init (1/10) 1 (98/100) (1/3000)) Environment_init 0 dss"

text \<open>The robot that \<^verbatim>\<open>main\<close> constructs.\<close>

abbreviation main_robot :: robot where
  "main_robot \<equiv> Robot_init (1/10) 1 (98/100) (1/3000)"

subsection \<open>Vocabulary of the specification\<close>

text \<open>A state is in bounds when it is a cell of the 5 x 5 grid.\<close>

definition in_bounds :: "state \<Rightarrow> bool" where
  "in_bounds s = (0 \<le> fst s \<and> fst s < int height \<and> 0 \<le> snd s \<and> snd s < int width)"

text \<open>The Legality Mask \<open>A\<close> marks action \<open>a\<close> legal from the in-bounds state \<open>s\<close> when its
  entry is truthy, which is the test of \<^verbatim>\<open>receive_action\<close> and \<^verbatim>\<open>max_reachable_q\<close>.\<close>

definition legal :: "real array3 \<Rightarrow> state \<Rightarrow> nat \<Rightarrow> bool" where
  "legal A s a = (A (nat (fst s)) (nat (snd s)) a \<noteq> 0)"

text \<open>An environment is as constructed when its three immutable fields are those that
  \<^verbatim>\<open>__init__\<close> builds; the agent state is free.\<close>

definition as_constructed :: "environment \<Rightarrow> bool" where
  "as_constructed env =
     (board_rewards env = board_rewards Environment_init \<and>
      allowed_actions env = allowed_actions Environment_init \<and>
      final_states env = final_states Environment_init)"

text \<open>The per-action offset as the specification words it.\<close>

definition offset :: "state \<Rightarrow> nat \<Rightarrow> state" where
  "offset s a =
     (if a = 0 then (fst s - 1, snd s)
      else if a = 1 then (fst s, snd s - 1)
      else if a = 2 then (fst s + 1, snd s)
      else (fst s, snd s + 1))"

text \<open>The opposite of an action and the two actions orthogonal to it.\<close>

definition opposite :: "nat \<Rightarrow> nat" where "opposite a = (a + 2) mod 4"
definition orthogonal_A :: "nat \<Rightarrow> nat" where "orthogonal_A a = (a + 1) mod 4"
definition orthogonal_B :: "nat \<Rightarrow> nat" where "orthogonal_B a = (a + 3) mod 4"

text \<open>A uniform sample lies in \<open>[0, 1)\<close>.\<close>

definition unit_draw :: "real \<Rightarrow> bool" where
  "unit_draw u = (0 \<le> u \<and> u < 1)"

definition unit_draws4 :: "draws4 \<Rightarrow> bool" where
  "unit_draws4 us = (case us of (u0, u1, u2, u3) \<Rightarrow>
     unit_draw u0 \<and> unit_draw u1 \<and> unit_draw u2 \<and> unit_draw u3)"

text \<open>The sample of \<^verbatim>\<open>receive_action\<close> that belongs to the key \<open>a\<close> of its dict.\<close>

definition draw_of :: "draws4 \<Rightarrow> nat \<Rightarrow> real" where
  "draw_of us a = (case us of (u0, u1, u2, u3) \<Rightarrow> [u0, u1, u2, u3] ! a)"

text \<open>Sample draws for the instances: every uniform sample is 1/2, so that the intended
  action is realized, and the word of the exploring draw is \<open>k\<close>.\<close>

abbreviation half4 :: draws4 where
  "half4 \<equiv> (1/2, 1/2, 1/2, 1/2)"

abbreviation explore_draw :: "nat \<Rightarrow> step_draws" where
  "explore_draw k \<equiv> \<lparr>d_best = 1/2, d_explore = k, d_kernel = half4\<rparr>"

text \<open>The actions that the mask \<open>A\<close> marks legal from \<open>s\<close>, in the scan order, and the
  bootstrap value of the specification: the maximum of the Q-values \<open>q\<close> over them.\<close>

definition legal_actions :: "real array3 \<Rightarrow> state \<Rightarrow> nat list" where
  "legal_actions A s = filter (legal A s) [0, 1, 2, 3]"

definition V :: "(nat \<Rightarrow> nat \<Rightarrow> nat \<Rightarrow> real) \<Rightarrow> real array3 \<Rightarrow> state \<Rightarrow> real" where
  "V q A s = Max (set (map (q (nat (fst s)) (nat (snd s))) (legal_actions A s)))"

text \<open>The draws of one step are valid when the exploration rate is a probability and the
  uniform samples lie in \<open>[0, 1)\<close>.\<close>

definition valid_step :: "robot \<Rightarrow> step_draws \<Rightarrow> bool" where
  "valid_step rob d =
     (0 \<le> epsilon rob \<and> epsilon rob \<le> 1 \<and> unit_draw (d_best d)
      \<and> unit_draws4 (d_kernel d))"

text \<open>A run of calls of \<^verbatim>\<open>receive_action\<close>, one intended action and its samples per
  call; the result lists the agent state after each call.\<close>

fun receive_actions ::
  "environment \<Rightarrow> (nat \<times> draws4) list \<Rightarrow> error + (environment \<times> state list)" where
  "receive_actions env [] = Inr (env, [])"
| "receive_actions env ((a, us) # rest) =
     (case receive_action env a us of
        Inl e \<Rightarrow> Inl e
      | Inr (env', s', r, done) \<Rightarrow>
          (case receive_actions env' rest of
             Inl e \<Rightarrow> Inl e
           | Inr (env'', tr) \<Rightarrow> Inr (env'', robot_state env' # tr)))"

section \<open>Basic facts\<close>

lemma bind_err_Inr [simp]: "bind_err (Inr x) f = f x"
  by (simp add: bind_err_def)

lemma bind_err_Inl [simp]: "bind_err (Inl e) f = Inl e"
  by (simp add: bind_err_def)

text \<open>The store \<^verbatim>\<open>A[r, c, a] = v\<close> changes the entry \<open>(r, c, a)\<close> and no other.\<close>

lemma set3_apply:
  "set3 A r c a v i j k = (if i = r \<and> j = c \<and> k = a then v else A i j k)"
  by (simp add: set3_def)

lemma set2_apply:
  "set2 A r c v i j = (if i = r \<and> j = c then v else A i j)"
  by (simp add: set2_def)

lemma np_index_in_range: "0 \<le> i \<Longrightarrow> i < int n \<Longrightarrow> np_index n i = Inr (nat i)"
  by (simp add: np_index_def)

lemma index3_in_bounds:
  "in_bounds s \<Longrightarrow> a < 4 \<Longrightarrow> index3 s a = Inr (nat (fst s), nat (snd s), a)"
  by (simp add: index3_def in_bounds_def np_index_in_range)

lemma get3_in_bounds:
  "in_bounds s \<Longrightarrow> a < 4 \<Longrightarrow> get3 A s a = Inr (A (nat (fst s)) (nat (snd s)) a)"
  by (simp add: get3_def index3_in_bounds)

lemma get2_in_bounds:
  "in_bounds s \<Longrightarrow> get2 A s = Inr (A (nat (fst s)) (nat (snd s)))"
  by (simp add: get2_def in_bounds_def np_index_in_range)

lemma allowed_init:
  "allowed_actions Environment_init r c a =
     (if (c = 0 \<and> a = 1) \<or> (c = 4 \<and> a = 3) \<or> (r = 0 \<and> a = 0) \<or> (r = 4 \<and> a = 2)
         \<or> (1 \<le> r \<and> r < 4 \<and> (a = 3 \<or> a = 1))
         \<or> (r = 0 \<and> c = 1 \<and> a = 2) \<or> (r = 1 \<and> c = 2 \<and> a = 2) \<or> (r = 0 \<and> c = 3 \<and> a = 2)
         \<or> (r = 1 \<and> c = 1 \<and> a = 0) \<or> (r = 2 \<and> c = 2 \<and> a = 0) \<or> (r = 1 \<and> c = 3 \<and> a = 0)
      then 0 else 1)"
  by (simp add: Environment_init_def Let_def assign3_def every_def only_def from_to_def)

lemma board_init:
  "board_rewards Environment_init r c =
     (if r = 1 \<and> c = 3 then 100 else if r = 1 \<and> c = 2 then 50
      else if r = 1 \<and> c = 1 then - 100 else 0)"
  by (simp add: Environment_init_def Let_def set2_def)

lemma final_init: "final_states Environment_init = [(1, 1), (1, 2), (1, 3)]"
  by (simp add: Environment_init_def Let_def)

lemma as_constructed_init [simp]: "as_constructed (Environment_init\<lparr>robot_state := s\<rparr>)"
  by (simp add: as_constructed_def)

lemma less4_cases: "a < (4::nat) \<Longrightarrow> a = 0 \<or> a = 1 \<or> a = 2 \<or> a = 3"
  by arith

lemma next_state_offset: "a < 4 \<Longrightarrow> next_state s a = Inr (offset s a)"
  by (auto simp: next_state_def offset_def dest!: less4_cases)

lemma mask_border:
  "allowed_actions Environment_init 0 c 0 = 0"
  "allowed_actions Environment_init r 0 1 = 0"
  "allowed_actions Environment_init 4 c 2 = 0"
  "allowed_actions Environment_init r 4 3 = 0"
  by (simp_all add: allowed_init)

text \<open>A legal move under the constructed mask stays on the grid.\<close>

lemma legal_move_in_bounds:
  assumes "in_bounds s" and "a < 4" and "legal (allowed_actions Environment_init) s a"
  shows "in_bounds (offset s a)"
proof -
  obtain r c where s: "s = (r, c)" by (cases s)
  have b: "0 \<le> r" "r < 5" "0 \<le> c" "c < 5"
    using assms(1) by (simp_all add: s in_bounds_def height_def width_def)
  have up: "a = 0 \<Longrightarrow> r \<noteq> 0"
    using assms(3) mask_border(1) [of "nat c"] by (auto simp: legal_def s)
  have left: "a = 1 \<Longrightarrow> c \<noteq> 0"
    using assms(3) mask_border(2) [of "nat r"] by (auto simp: legal_def s)
  have down: "a = 2 \<Longrightarrow> r \<noteq> 4"
    using assms(3) mask_border(3) [of "nat c"] by (auto simp: legal_def s)
  have right: "a = 3 \<Longrightarrow> c \<noteq> 4"
    using assms(3) mask_border(4) [of "nat r"] by (auto simp: legal_def s)
  from assms(2) have "a = 0 \<or> a = 1 \<or> a = 2 \<or> a = 3" by (rule less4_cases)
  then show ?thesis
  proof (elim disjE)
    assume "a = 0" with up b show ?thesis
      by (simp add: s offset_def in_bounds_def height_def width_def)
  next
    assume "a = 1" with left b show ?thesis
      by (simp add: s offset_def in_bounds_def height_def width_def)
  next
    assume "a = 2" with down b show ?thesis
      by (simp add: s offset_def in_bounds_def height_def width_def)
  next
    assume "a = 3" with right b show ?thesis
      by (simp add: s offset_def in_bounds_def height_def width_def)
  qed
qed

subsection \<open>The categorical draws\<close>

lemma probs_nth:
  "action_probs ! 0 = [4/5, 1/10, 0, 1/10]"
  "action_probs ! 1 = [1/10, 4/5, 1/10, 0]"
  "action_probs ! Suc 0 = [1/10, 4/5, 1/10, 0]"
  "action_probs ! 2 = [0, 1/10, 4/5, 1/10]"
  "action_probs ! 3 = [1/10, 0, 1/10, 4/5]"
  by (simp_all add: action_probs_def)

lemma choice_up:
  "unit_draw u \<Longrightarrow> np_random_choice 4 [4/5, 1/10, 0, 1/10] u =
     Inr (if u < 4/5 then 0 else if u < 9/10 then 1 else 3)"
  by (simp add: np_random_choice_def unit_draw_def)

lemma choice_left:
  "unit_draw u \<Longrightarrow> np_random_choice 4 [1/10, 4/5, 1/10, 0] u =
     Inr (if u < 1/10 then 0 else if u < 9/10 then 1 else 2)"
  by (simp add: np_random_choice_def unit_draw_def)

lemma choice_down:
  "unit_draw u \<Longrightarrow> np_random_choice 4 [0, 1/10, 4/5, 1/10] u =
     Inr (if u < 1/10 then 1 else if u < 9/10 then 2 else 3)"
  by (simp add: np_random_choice_def unit_draw_def)

lemma choice_right:
  "unit_draw u \<Longrightarrow> np_random_choice 4 [1/10, 0, 1/10, 4/5] u =
     Inr (if u < 1/10 then 0 else if u < 1/5 then 2 else 3)"
  by (simp add: np_random_choice_def unit_draw_def)

text \<open>Only the sample that belongs to the intended action decides the realized one.\<close>

lemma randomized_action_draw_of:
  assumes "a < 4" and "unit_draws4 us"
  shows "randomized_action a us = np_random_choice 4 (action_probs ! a) (draw_of us a)"
proof -
  obtain u0 u1 u2 u3 where us: "us = (u0, u1, u2, u3)" by (cases us) auto
  have u: "unit_draw u0" "unit_draw u1" "unit_draw u2" "unit_draw u3"
    using assms(2) by (simp_all add: us unit_draws4_def)
  from assms(1) have "a = 0 \<or> a = 1 \<or> a = 2 \<or> a = 3" by (rule less4_cases)
  then show ?thesis
    by (elim disjE)
       (simp_all add: us randomized_action_def draw_of_def probs_nth
          choice_up [OF u(1)] choice_left [OF u(2)] choice_down [OF u(3)] choice_right [OF u(4)])
qed

lemma unit_draw_of: "a < 4 \<Longrightarrow> unit_draws4 us \<Longrightarrow> unit_draw (draw_of us a)"
  by (cases us) (auto simp: unit_draws4_def draw_of_def dest!: less4_cases)

lemma randomized_action_total:
  assumes "a < 4" and "unit_draws4 us"
  shows "\<exists>ra < 4. randomized_action a us = Inr ra \<and> ra \<noteq> opposite a"
proof -
  have u: "unit_draw (draw_of us a)" using assms by (rule unit_draw_of)
  note eq = randomized_action_draw_of [OF assms]
  from assms(1) have "a = 0 \<or> a = 1 \<or> a = 2 \<or> a = 3" by (rule less4_cases)
  then show ?thesis
    using u eq
    by (elim disjE)
       (simp_all add: opposite_def probs_nth choice_up choice_left choice_down choice_right)
qed

subsection \<open>One call of \<^verbatim>\<open>receive_action\<close>\<close>

lemma receive_action_unfold:
  assumes "in_bounds (robot_state env)" and "randomized_action action us = Inr ra" and "ra < 4"
  shows "receive_action env action us =
     (if legal (allowed_actions env) (robot_state env) ra
      then bind_err (get2 (board_rewards env) (offset (robot_state env) ra)) (\<lambda>r.
             Inr (env\<lparr>robot_state := offset (robot_state env) ra\<rparr>,
                  offset (robot_state env) ra, r - 1,
                  offset (robot_state env) ra \<in> set (final_states env)))
      else Inr (env, robot_state env, - 1, False))"
  using assms
  by (simp add: receive_action_def Let_def get3_in_bounds legal_def next_state_offset)

section \<open>The world model\<close>

text \<open>Four samples of 1/2 realize the intended action, whichever it is.\<close>

lemma half_draws:
  "unit_draws4 (1/2, 1/2, 1/2, 1/2)"
  "randomized_action 0 (1/2, 1/2, 1/2, 1/2) = Inr 0"
  "randomized_action 1 (1/2, 1/2, 1/2, 1/2) = Inr 1"
  "randomized_action 2 (1/2, 1/2, 1/2, 1/2) = Inr 2"
  "randomized_action 3 (1/2, 1/2, 1/2, 1/2) = Inr 3"
  by (simp_all add: unit_draws4_def unit_draw_def randomized_action_def np_random_choice_def
        action_probs_def)

text \<open>
  C4. For every state of the grid and every realized action that the Legality Mask marks
  illegal from it, \<^verbatim>\<open>receive_action\<close> leaves the agent state unchanged and returns the
  reward \<open>-1\<close> and \<open>game_over = False\<close>. Whether the agent sits on a terminal cell plays
  no role: the terminal set does not occur in the statement, and the instance below is
  taken at the terminal cell \<open>(1, 2)\<close>.
\<close>

theorem receive_action_illegal:
  assumes "in_bounds (robot_state env)"
      and "randomized_action action us = Inr ra" and "ra < 4"
      and "\<not> legal (allowed_actions env) (robot_state env) ra"
  shows "receive_action env action us = Inr (env, robot_state env, - 1, False)"
  using assms by (simp add: receive_action_unfold)

text \<open>The instance at the terminal cell \<open>(1, 2)\<close>, from which moving down is illegal.\<close>

theorem receive_action_illegal_witness:
  "in_bounds (1, 2) \<and> (1, 2) \<in> set (final_states Environment_init)
   \<and> randomized_action 2 (1/2, 1/2, 1/2, 1/2) = Inr 2
   \<and> \<not> legal (allowed_actions Environment_init) (1, 2) 2
   \<and> receive_action (Environment_init\<lparr>robot_state := (1, 2)\<rparr>) 2 (1/2, 1/2, 1/2, 1/2)
       = Inr (Environment_init\<lparr>robot_state := (1, 2)\<rparr>, (1, 2), - 1, False)"
proof -
  have ib: "in_bounds (1, 2)" by (simp add: in_bounds_def height_def width_def)
  have il: "\<not> legal (allowed_actions Environment_init) (1, 2) 2"
    by (simp add: legal_def allowed_init)
  show ?thesis
    using receive_action_illegal
            [of "Environment_init\<lparr>robot_state := (1, 2)\<rparr>" 2 "(1/2, 1/2, 1/2, 1/2)" 2]
          ib il half_draws(4)
    by (simp add: final_init)
qed

text \<open>
  C3. For every state of the grid and every realized action that the Legality Mask marks
  legal from it, \<^verbatim>\<open>receive_action\<close> commits the state given by the offset of the action,
  returns the Reward Map value at the new cell minus 1, and returns \<open>game_over\<close> true
  exactly when the new state is in the Terminal Set.
\<close>

theorem receive_action_legal:
  assumes "as_constructed env" and "in_bounds (robot_state env)"
      and "randomized_action action us = Inr ra" and "ra < 4"
      and "legal (allowed_actions env) (robot_state env) ra"
  shows "receive_action env action us =
           Inr (env\<lparr>robot_state := offset (robot_state env) ra\<rparr>,
                offset (robot_state env) ra,
                board_rewards env (nat (fst (offset (robot_state env) ra)))
                                  (nat (snd (offset (robot_state env) ra))) - 1,
                offset (robot_state env) ra \<in> set (final_states env))"
proof -
  have "legal (allowed_actions Environment_init) (robot_state env) ra"
    using assms(1,5) by (simp add: as_constructed_def)
  with assms(2,4) have "in_bounds (offset (robot_state env) ra)"
    by (rule legal_move_in_bounds)
  then show ?thesis
    using assms by (simp add: receive_action_unfold get2_in_bounds)
qed

text \<open>The instance that moves up from \<open>(2, 1)\<close> into the terminal cell \<open>(1, 1)\<close>.\<close>

theorem receive_action_legal_witness:
  "as_constructed (Environment_init\<lparr>robot_state := (2, 1)\<rparr>) \<and> in_bounds (2, 1)
   \<and> randomized_action 0 (1/2, 1/2, 1/2, 1/2) = Inr 0
   \<and> legal (allowed_actions Environment_init) (2, 1) 0
   \<and> receive_action (Environment_init\<lparr>robot_state := (2, 1)\<rparr>) 0 (1/2, 1/2, 1/2, 1/2)
       = Inr (Environment_init\<lparr>robot_state := (1, 1)\<rparr>, (1, 1), - 101, True)"
proof -
  have ib: "in_bounds (2, 1)" by (simp add: in_bounds_def height_def width_def)
  have l: "legal (allowed_actions Environment_init) (2, 1) 0"
    by (simp add: legal_def allowed_init)
  show ?thesis
    using receive_action_legal
            [of "Environment_init\<lparr>robot_state := (2, 1)\<rparr>" 0 "(1/2, 1/2, 1/2, 1/2)" 0]
          ib l half_draws(2)
    by (simp add: final_init offset_def board_init)
qed

text \<open>One call keeps the agent on the grid and the immutable fields as they are.\<close>

lemma receive_action_step:
  assumes "as_constructed env" and "in_bounds (robot_state env)"
      and "a < 4" and "unit_draws4 us"
  shows "\<exists>env' r done. receive_action env a us = Inr (env', robot_state env', r, done)
           \<and> as_constructed env' \<and> in_bounds (robot_state env')"
proof -
  obtain ra where ra: "ra < 4" "randomized_action a us = Inr ra"
    using randomized_action_total [OF assms(3,4)] by blast
  show ?thesis
  proof (cases "legal (allowed_actions env) (robot_state env) ra")
    case True
    then have "legal (allowed_actions Environment_init) (robot_state env) ra"
      using assms(1) by (simp add: as_constructed_def)
    with assms(2) ra(1) have ib: "in_bounds (offset (robot_state env) ra)"
      by (rule legal_move_in_bounds)
    show ?thesis
      using True ib assms(1,2) ra
      by (simp add: receive_action_unfold get2_in_bounds as_constructed_def)
  next
    case False
    then show ?thesis
      using assms(1,2) ra by (auto simp: receive_action_unfold)
  qed
qed

text \<open>
  C5. From any in-bounds agent state, for every sequence of intended actions (and every
  choice of the uniform samples), each call of \<^verbatim>\<open>receive_action\<close> returns, and the agent
  state after each call is within \<open>[0, 5) \<times> [0, 5)\<close>.
\<close>

theorem receive_actions_in_bounds:
  assumes "as_constructed env" and "in_bounds (robot_state env)"
      and "\<forall>(a, us) \<in> set inputs. a < 4 \<and> unit_draws4 us"
  shows "\<exists>env' tr. receive_actions env inputs = Inr (env', tr)
           \<and> length tr = length inputs \<and> (\<forall>s \<in> set tr. in_bounds s)
           \<and> as_constructed env' \<and> in_bounds (robot_state env')"
  using assms
proof (induction inputs arbitrary: env)
  case Nil
  then show ?case by simp
next
  case (Cons x rest)
  obtain a us where x: "x = (a, us)" by (cases x)
  have a: "a < 4" "unit_draws4 us" using Cons.prems(3) by (simp_all add: x)
  obtain env1 r fin where 1:
    "receive_action env a us = Inr (env1, robot_state env1, r, fin)"
    "as_constructed env1" "in_bounds (robot_state env1)"
    using receive_action_step [OF Cons.prems(1,2) a] by blast
  have "\<forall>(a, us) \<in> set rest. a < 4 \<and> unit_draws4 us"
    using Cons.prems(3) by simp
  from Cons.IH [OF 1(2,3) this]
  obtain env2 tr where 2:
    "receive_actions env1 rest = Inr (env2, tr)" "length tr = length rest"
    "\<forall>s \<in> set tr. in_bounds s" "as_constructed env2" "in_bounds (robot_state env2)"
    by blast
  show ?case
    using 1 2 by (simp add: x)
qed

lemma init_in_bounds: "in_bounds (robot_state Environment_init)"
  by (simp add: Environment_init_def Let_def in_bounds_def height_def width_def)

lemma init_as_constructed: "as_constructed Environment_init"
  by (simp add: as_constructed_def)

text \<open>The instance that walks right from the start cell and then bumps into the upper
  border.\<close>

theorem receive_actions_in_bounds_witness:
  "as_constructed Environment_init \<and> in_bounds (robot_state Environment_init)
   \<and> (\<exists>env' tr. receive_actions Environment_init
                    [(3, (1/2, 1/2, 1/2, 1/2)), (0, (1/2, 1/2, 1/2, 1/2))] = Inr (env', tr)
          \<and> length tr = 2 \<and> list_all in_bounds tr \<and> in_bounds (robot_state env'))"
proof -
  have h: "\<forall>(a, us) \<in> set [(3::nat, (1/2, 1/2, 1/2, 1/2)), (0, (1/2, 1/2, 1/2, 1/2))].
             a < 4 \<and> unit_draws4 us"
    by (simp add: half_draws)
  from receive_actions_in_bounds [OF init_as_constructed init_in_bounds h]
  obtain env' tr where
    "receive_actions Environment_init
       [(3, (1/2, 1/2, 1/2, 1/2)), (0, (1/2, 1/2, 1/2, 1/2))] = Inr (env', tr)"
    "length tr = 2" "\<forall>s \<in> set tr. in_bounds s" "in_bounds (robot_state env')"
    by auto
  then show ?thesis
    using init_as_constructed init_in_bounds by (auto simp: list_all_iff)
qed

subsection \<open>The stochastic kernel\<close>

lemma weights:
  assumes "a < 4"
  shows "length (action_probs ! a) = 4"
    and "action_probs ! a ! a = 8/10"
    and "action_probs ! a ! orthogonal_A a = 1/10"
    and "action_probs ! a ! orthogonal_B a = 1/10"
    and "action_probs ! a ! opposite a = 0"
    and "sum_list (action_probs ! a) = 1"
  using less4_cases [OF assms]
  by (auto simp: probs_nth orthogonal_A_def orthogonal_B_def opposite_def)

text \<open>The uniform samples that realize action \<open>i\<close> form a half-open interval whose length
  is the weight of \<open>i\<close>.\<close>

lemma draw_set:
  assumes "a < 4" and "i < 4"
  shows "{u. unit_draw u \<and> np_random_choice 4 (action_probs ! a) u = Inr i}
         = {sum_list (take i (action_probs ! a))
              ..< sum_list (take i (action_probs ! a)) + action_probs ! a ! i}"
proof -
  from assms(1) have a: "a = 0 \<or> a = 1 \<or> a = 2 \<or> a = 3" by (rule less4_cases)
  from assms(2) have i: "i = 0 \<or> i = 1 \<or> i = 2 \<or> i = 3" by (rule less4_cases)
  from a i show ?thesis
    by (elim disjE)
       (auto simp: probs_nth np_random_choice_def unit_draw_def)
qed

text \<open>
  C2. For every intended action \<open>a\<close> of the four (the state plays no role: it is not an
  argument of the draw), the realized action is the categorical draw over the four actions
  with the weight vector \<open>action_probs ! a\<close>, which puts 0.8 on \<open>a\<close>, 0.1 on each of the
  two orthogonal actions and 0 on the opposite one, and sums to 1. The draw is governed by
  the uniform sample that belongs to \<open>a\<close>, and the samples that realize an action \<open>i\<close>
  make up an interval of length \<open>action_probs ! a ! i\<close>.
\<close>

theorem realized_action_distribution:
  assumes "a < 4"
  shows "length (action_probs ! a) = 4
       \<and> action_probs ! a ! a = 8/10
       \<and> action_probs ! a ! orthogonal_A a = 1/10
       \<and> action_probs ! a ! orthogonal_B a = 1/10
       \<and> action_probs ! a ! opposite a = 0
       \<and> sum_list (action_probs ! a) = 1
       \<and> (\<forall>us. unit_draws4 us \<longrightarrow>
             randomized_action a us = np_random_choice 4 (action_probs ! a) (draw_of us a))
       \<and> (\<forall>i<4. {u. unit_draw u \<and> np_random_choice 4 (action_probs ! a) u = Inr i}
                  = {sum_list (take i (action_probs ! a))
                       ..< sum_list (take i (action_probs ! a)) + action_probs ! a ! i})"
  using weights [OF assms] randomized_action_draw_of [OF assms] draw_set [OF assms]
  by simp

text \<open>The instance for the intended action up: left is realized on \<open>[0.8, 0.9)\<close>.\<close>

theorem realized_action_distribution_witness:
  "(0::nat) < 4
   \<and> length (action_probs ! 0) = 4
   \<and> action_probs ! 0 ! 0 = 8/10
   \<and> action_probs ! 0 ! 1 = 1/10
   \<and> action_probs ! 0 ! 3 = 1/10
   \<and> action_probs ! 0 ! 2 = 0
   \<and> sum_list (action_probs ! 0) = 1
   \<and> randomized_action 0 (1/2, 1/2, 1/2, 1/2) = Inr 0
   \<and> {u. unit_draw u \<and> np_random_choice 4 (action_probs ! 0) u = Inr 1} = {8/10 ..< 9/10}"
proof -
  have a: "(0::nat) < 4" by simp
  note t = realized_action_distribution [OF a]
  have 1: "{u. unit_draw u \<and> np_random_choice 4 (action_probs ! 0) u = Inr 1}
           = {sum_list (take 1 (action_probs ! 0))
                ..< sum_list (take 1 (action_probs ! 0)) + action_probs ! 0 ! 1}"
    using t by simp
  have 2: "{sum_list (take 1 (action_probs ! 0))
                ..< sum_list (take 1 (action_probs ! 0)) + action_probs ! 0 ! 1}
           = {8/10 ..< 9/10 :: real}"
    by (simp add: probs_nth)
  show ?thesis
    using t 1 2 half_draws(2)
    by (simp add: orthogonal_A_def orthogonal_B_def opposite_def probs_nth)
qed

section \<open>The learner\<close>

subsection \<open>Action selection\<close>

lemma take_best_eval:
  assumes "0 \<le> epsilon rob" and "epsilon rob \<le> 1" and "unit_draw (d_best d)"
  shows "take_best_action rob d = Inr (if d_best d < 1 - epsilon rob then 1 else 0)"
  using assms by (simp add: take_best_action_def np_random_choice_def unit_draw_def)

text \<open>Each of the four values of \<^verbatim>\<open>np.random.random_integers(0, 3)\<close> comes from exactly a
  quarter of the \<open>2 ^ 32\<close> words, and no word gives any other value.\<close>

lemma random_integers_range: "np_random_integers 0 3 w < 4"
  by (simp add: np_random_integers_def)

lemma card_residue:
  assumes "k < 4"
  shows "card {w::nat. w < 2 ^ 32 \<and> w mod 4 = k} = 2 ^ 30"
proof -
  have "{w::nat. w < 2 ^ 32 \<and> w mod 4 = k} = (\<lambda>j. 4 * j + k) ` {..< 2 ^ 30}"
  proof (rule set_eqI)
    fix w :: nat
    show "w \<in> {w. w < 2 ^ 32 \<and> w mod 4 = k} \<longleftrightarrow> w \<in> (\<lambda>j. 4 * j + k) ` {..< 2 ^ 30}"
    proof
      assume "w \<in> {w. w < 2 ^ 32 \<and> w mod 4 = k}"
      then have w: "w < 2 ^ 32" "w mod 4 = k" by simp_all
      have "w = 4 * (w div 4) + k" using w(2) by presburger
      moreover have "w div 4 < 2 ^ 30" using w(1) by simp
      ultimately show "w \<in> (\<lambda>j. 4 * j + k) ` {..< 2 ^ 30}" by blast
    next
      assume "w \<in> (\<lambda>j. 4 * j + k) ` {..< 2 ^ 30}"
      then obtain j where j: "j < 2 ^ 30" "w = 4 * j + k" by auto
      have "w < 2 ^ 32" using j assms by simp
      moreover have "w mod 4 = k" using j(2) assms by simp
      ultimately show "w \<in> {w. w < 2 ^ 32 \<and> w mod 4 = k}" by simp
    qed
  qed
  moreover have "inj_on (\<lambda>j::nat. 4 * j + k) {..< 2 ^ 30}"
    by (rule inj_onI) simp
  ultimately show ?thesis
    by (simp add: card_image)
qed

lemma take_best_ignores_explore:
  "take_best_action rob (d\<lparr>d_explore := w\<rparr>) = take_best_action rob d"
  by (simp add: take_best_action_def)

text \<open>
  C7. The exploring branch is taken on the samples of \<open>[1 - epsilon, 1)\<close>, an interval of
  length \<open>epsilon\<close>. On it the chosen action is the value of
  \<^verbatim>\<open>np.random.random_integers(0, 3)\<close>, one of the four actions, for every state: neither
  the Q-table nor the Legality Mask is consulted. The choice is uniform over all four
  actions: whatever the state, each action, legal from it or not, is chosen for exactly
  \<open>2 ^ 30\<close> of the \<open>2 ^ 32\<close> words of the generator.
\<close>

theorem explore_uniform_ignores_mask:
  assumes "0 \<le> epsilon rob" and "epsilon rob \<le> 1"
  shows "{u. unit_draw u \<and> take_best_action rob (d\<lparr>d_best := u\<rparr>) = Inr 0}
           = {1 - epsilon rob ..< 1}
       \<and> (take_best_action rob d = Inr 0 \<longrightarrow>
            (\<forall>s. choose_action rob s d = Inr (np_random_integers 0 3 (d_explore d))
                 \<and> np_random_integers 0 3 (d_explore d) < 4)
          \<and> (\<forall>s. \<forall>k<4.
                 card {w. w < 2 ^ 32 \<and> choose_action rob s (d\<lparr>d_explore := w\<rparr>) = Inr k}
                   = 2 ^ 30))"
proof -
  have "\<And>u. unit_draw u \<Longrightarrow>
          take_best_action rob (d\<lparr>d_best := u\<rparr>) = Inr (if u < 1 - epsilon rob then 1 else 0)"
    using take_best_eval [OF assms, of "d\<lparr>d_best := u\<rparr>" for u] by simp
  then have 1: "{u. unit_draw u \<and> take_best_action rob (d\<lparr>d_best := u\<rparr>) = Inr 0}
           = {1 - epsilon rob ..< 1}"
    using assms by (auto simp: unit_draw_def split: if_splits)
  have 2: "\<forall>s. choose_action rob s d = Inr (np_random_integers 0 3 (d_explore d))
               \<and> np_random_integers 0 3 (d_explore d) < 4"
    if "take_best_action rob d = Inr 0"
    using that by (simp add: choose_action_def random_integers_range)
  have 3: "\<forall>s. \<forall>k<4.
             card {w. w < 2 ^ 32 \<and> choose_action rob s (d\<lparr>d_explore := w\<rparr>) = Inr k} = 2 ^ 30"
    if t: "take_best_action rob d = Inr 0"
  proof (intro allI impI)
    fix s :: state and k :: nat
    assume k: "k < 4"
    have "\<And>w. choose_action rob s (d\<lparr>d_explore := w\<rparr>) = Inr (w mod 4)"
      using t by (simp add: choose_action_def take_best_ignores_explore np_random_integers_def)
    then have "{w. w < 2 ^ 32 \<and> choose_action rob s (d\<lparr>d_explore := w\<rparr>) = Inr k}
               = {w. w < 2 ^ 32 \<and> w mod 4 = k}"
      by simp
    then show "card {w. w < 2 ^ 32 \<and> choose_action rob s (d\<lparr>d_explore := w\<rparr>) = Inr k}
               = 2 ^ 30"
      using card_residue [OF k] by simp
  qed
  from 1 2 3 show ?thesis by blast
qed

text \<open>The instance at the start cell with the word 17, which gives the action 1 (left):
  illegal from \<open>(0, 0)\<close>, chosen all the same, and answered by the environment with the
  reward \<open>-1\<close> and no move.\<close>

theorem explore_uniform_ignores_mask_witness:
  "0 \<le> epsilon main_robot \<and> epsilon main_robot \<le> 1
   \<and> take_best_action main_robot (explore_draw 17) = Inr 0
   \<and> choose_action main_robot (0, 0) (explore_draw 17) = Inr 1
   \<and> \<not> legal (allowed_actions Environment_init) (0, 0) 1
   \<and> receive_action Environment_init 1 half4 = Inr (Environment_init, (0, 0), - 1, False)
   \<and> card {w. w < 2 ^ 32
             \<and> choose_action main_robot (0, 0) ((explore_draw 17)\<lparr>d_explore := w\<rparr>) = Inr 1}
       = 2 ^ 30
   \<and> {u. unit_draw u \<and> take_best_action main_robot ((explore_draw 17)\<lparr>d_best := u\<rparr>) = Inr 0}
       = {0 ..< 1}"
proof -
  have e: "0 \<le> epsilon main_robot" "epsilon main_robot \<le> 1"
    by (simp_all add: Robot_init_def)
  have t: "take_best_action main_robot (explore_draw 17) = Inr 0"
    by (simp add: take_best_action_def np_random_choice_def Robot_init_def)
  have l: "\<not> legal (allowed_actions Environment_init) (0, 0) 1"
    by (simp add: legal_def allowed_init)
  have ib: "in_bounds (robot_state Environment_init)"
    by (rule init_in_bounds)
  have rs: "robot_state Environment_init = (0, 0)"
    by (simp add: Environment_init_def Let_def)
  have r: "receive_action Environment_init 1 half4 = Inr (Environment_init, (0, 0), - 1, False)"
    using receive_action_unfold [OF ib half_draws(3)] l by (simp add: rs)
  note th = explore_uniform_ignores_mask [OF e, of "explore_draw 17"]
  have c: "choose_action main_robot (0, 0) (explore_draw 17) = Inr 1"
    using th t by (simp add: np_random_integers_def)
  have one: "(1::nat) < 4" by simp
  have k: "card {w. w < 2 ^ 32
             \<and> choose_action main_robot (0, 0) ((explore_draw 17)\<lparr>d_explore := w\<rparr>) = Inr 1}
           = 2 ^ 30"
    using th t one by blast
  have i: "{u. unit_draw u \<and> take_best_action main_robot ((explore_draw 17)\<lparr>d_best := u\<rparr>) = Inr 0}
           = {0 ..< 1}"
    using th by (simp add: Robot_init_def)
  from e t c l r k i show ?thesis by blast
qed

subsection \<open>The greedy choice\<close>

lemma fl_le_refl: "x \<noteq> NaN \<Longrightarrow> fl_le x x"
  by (cases x) auto

lemma fl_le_not_NaN: "fl_le x y \<Longrightarrow> x \<noteq> NaN \<and> y \<noteq> NaN"
  by (cases x; cases y) auto

lemma fl_not_le: "\<not> fl_le x y \<Longrightarrow> x \<noteq> NaN \<Longrightarrow> y \<noteq> NaN \<Longrightarrow> fl_gt x y \<and> fl_le y x"
  by (cases x; cases y) auto

lemma fl_le_gt_trans: "fl_le a m \<Longrightarrow> fl_gt x m \<Longrightarrow> fl_gt x a \<and> fl_le a x"
  by (cases a; cases m; cases x) auto

lemma np_argmax_scan_spec:
  assumes "mp \<noteq> NaN" and "NaN \<notin> set xs"
      and "ind < length pre" and "pre ! ind = mp"
      and "\<forall>k<length pre. fl_le (pre ! k) mp"
      and "\<forall>k<ind. fl_gt mp (pre ! k)"
  shows "np_argmax_scan mp ind (length pre) xs < length (pre @ xs)
       \<and> (\<forall>k<length (pre @ xs).
             fl_le ((pre @ xs) ! k) ((pre @ xs) ! np_argmax_scan mp ind (length pre) xs))
       \<and> (\<forall>k<np_argmax_scan mp ind (length pre) xs.
             fl_gt ((pre @ xs) ! np_argmax_scan mp ind (length pre) xs) ((pre @ xs) ! k))"
  using assms
proof (induction xs arbitrary: mp ind pre)
  case Nil
  then show ?case by simp
next
  case (Cons x xs)
  have x: "x \<noteq> NaN" and xs: "NaN \<notin> set xs" using Cons.prems(2) by auto
  have app: "(pre @ [x]) @ xs = pre @ x # xs" by simp
  have len: "length (pre @ [x]) = Suc (length pre)" by simp
  show ?case
  proof (cases "fl_le x mp")
    case True
    have 1: "ind < length (pre @ [x])" using Cons.prems(3) by simp
    have 2: "(pre @ [x]) ! ind = mp" using Cons.prems(3,4) by (simp add: nth_append)
    have 3: "\<forall>k<length (pre @ [x]). fl_le ((pre @ [x]) ! k) mp"
      using Cons.prems(5) True by (auto simp: nth_append less_Suc_eq)
    have 4: "\<forall>k<ind. fl_gt mp ((pre @ [x]) ! k)"
      using Cons.prems(3,6) by (auto simp: nth_append)
    from Cons.IH [OF Cons.prems(1) xs 1 2 3 4]
    show ?thesis
      using True Cons.prems(1) by simp
  next
    case False
    then have gt: "fl_gt x mp" using fl_not_le [OF False x Cons.prems(1)] by simp
    have 1: "length pre < length (pre @ [x])" by simp
    have 2: "(pre @ [x]) ! length pre = x" by simp
    have 3: "\<forall>k<length (pre @ [x]). fl_le ((pre @ [x]) ! k) x"
      using Cons.prems(5) gt x
      by (auto simp: nth_append less_Suc_eq fl_le_refl dest: fl_le_gt_trans)
    have 4: "\<forall>k<length pre. fl_gt x ((pre @ [x]) ! k)"
      using Cons.prems(5) gt
      by (auto simp: nth_append dest: fl_le_gt_trans)
    from Cons.IH [OF x xs 1 2 3 4]
    show ?thesis
      using False Cons.prems(1) by simp
  qed
qed

lemma np_argmax_first_max:
  assumes "NaN \<notin> set row" and "row \<noteq> []"
  shows "\<exists>a. np_argmax row = Inr a \<and> a < length row
           \<and> (\<forall>k<length row. fl_le (row ! k) (row ! a))
           \<and> (\<forall>k<a. fl_gt (row ! a) (row ! k))"
proof -
  obtain x xs where row: "row = x # xs" using assms(2) by (cases row) auto
  have x: "x \<noteq> NaN" and xs: "NaN \<notin> set xs" using assms(1) by (auto simp: row)
  have "np_argmax_scan x 0 (length [x]) xs < length ([x] @ xs)
       \<and> (\<forall>k<length ([x] @ xs).
             fl_le (([x] @ xs) ! k) (([x] @ xs) ! np_argmax_scan x 0 (length [x]) xs))
       \<and> (\<forall>k<np_argmax_scan x 0 (length [x]) xs.
             fl_gt (([x] @ xs) ! np_argmax_scan x 0 (length [x]) xs) (([x] @ xs) ! k))"
    by (rule np_argmax_scan_spec) (use x xs in \<open>auto simp: fl_le_refl\<close>)
  then show ?thesis
    by (simp add: row np_argmax_def)
qed

lemma nth_actions: "k < 4 \<Longrightarrow> [0, 1, 2, 3 :: nat] ! k = k"
  by (auto dest!: less4_cases)

lemma q_row_in_bounds:
  "in_bounds s \<Longrightarrow> q_row Q s = Inr (map (Q (nat (fst s)) (nat (snd s))) [0, 1, 2, 3])"
  by (simp add: q_row_def in_bounds_def np_index_in_range)

text \<open>
  C6. On the exploiting branch the learner picks an action whose Q-value at the current
  state is maximal among the four, and every action before it in the order 0 (up),
  1 (left), 2 (down), 3 (right) has a strictly smaller Q-value: ties go to the first
  maximal action of the scan. (The row is assumed free of NaN, for which no maximum is
  defined.)
\<close>

theorem exploit_picks_first_max:
  assumes "in_bounds s" and "take_best_action rob d = Inr b" and "b \<noteq> 0"
      and "\<forall>k<4. Q_table rob (nat (fst s)) (nat (snd s)) k \<noteq> NaN"
  shows "\<exists>a<4. choose_action rob s d = Inr a
           \<and> (\<forall>k<4. fl_le (Q_table rob (nat (fst s)) (nat (snd s)) k)
                          (Q_table rob (nat (fst s)) (nat (snd s)) a))
           \<and> (\<forall>k<a. fl_gt (Q_table rob (nat (fst s)) (nat (snd s)) a)
                          (Q_table rob (nat (fst s)) (nat (snd s)) k))"
proof -
  let ?row = "map (Q_table rob (nat (fst s)) (nat (snd s))) [0, 1, 2, 3]"
  have "\<And>k. k < 4 \<Longrightarrow> NaN \<noteq> Q_table rob (nat (fst s)) (nat (snd s)) k"
    using assms(4) by (metis (no_types))
  then have nn: "NaN \<notin> set ?row" by simp
  have ne: "?row \<noteq> []" by simp
  from np_argmax_first_max [OF nn ne]
  obtain a where a: "np_argmax ?row = Inr a" "a < length ?row"
      "\<forall>k<length ?row. fl_le (?row ! k) (?row ! a)"
      "\<forall>k<a. fl_gt (?row ! a) (?row ! k)"
    by blast
  have a4: "a < 4" using a(2) by simp
  have nth: "\<And>k. k < 4 \<Longrightarrow> ?row ! k = Q_table rob (nat (fst s)) (nat (snd s)) k"
    using nth_actions by (simp del: list.map)
  have c: "choose_action rob s d = Inr a"
    using assms(1,2,3) a(1) by (simp add: choose_action_def q_row_in_bounds)
  have le: "\<forall>k<4. fl_le (Q_table rob (nat (fst s)) (nat (snd s)) k)
                       (Q_table rob (nat (fst s)) (nat (snd s)) a)"
  proof (intro allI impI)
    fix k :: nat assume k: "k < 4"
    then have "fl_le (?row ! k) (?row ! a)" using a(3) by simp
    then show "fl_le (Q_table rob (nat (fst s)) (nat (snd s)) k)
                     (Q_table rob (nat (fst s)) (nat (snd s)) a)"
      using nth [OF k] nth [OF a4] by simp
  qed
  have gt: "\<forall>k<a. fl_gt (Q_table rob (nat (fst s)) (nat (snd s)) a)
                       (Q_table rob (nat (fst s)) (nat (snd s)) k)"
  proof (intro allI impI)
    fix k :: nat assume k: "k < a"
    then have k4: "k < 4" using a4 by simp
    have "fl_gt (?row ! a) (?row ! k)" using a(4) k by simp
    then show "fl_gt (Q_table rob (nat (fst s)) (nat (snd s)) a)
                     (Q_table rob (nat (fst s)) (nat (snd s)) k)"
      using nth [OF k4] nth [OF a4] by simp
  qed
  from a4 c le gt show ?thesis by blast
qed

text \<open>The instance with the Q-values \<open>-1, 5, 5, 2\<close> at the start cell: left and down tie,
  and left, the first of the two, is chosen.\<close>

theorem exploit_picks_first_max_witness:
  "in_bounds (0, 0)
   \<and> take_best_action
        (main_robot\<lparr>epsilon := 0,
           Q_table := set3 (set3 (set3 (Q_table main_robot) 0 0 1 (Fin 5)) 0 0 2 (Fin 5))
                        0 0 3 (Fin 2)\<rparr>) (explore_draw 3) = Inr 1
   \<and> choose_action
        (main_robot\<lparr>epsilon := 0,
           Q_table := set3 (set3 (set3 (Q_table main_robot) 0 0 1 (Fin 5)) 0 0 2 (Fin 5))
                        0 0 3 (Fin 2)\<rparr>) (0, 0) (explore_draw 3) = Inr 1"
proof -
  let ?rob = "main_robot\<lparr>epsilon := 0,
           Q_table := set3 (set3 (set3 (Q_table main_robot) 0 0 1 (Fin 5)) 0 0 2 (Fin 5))
                        0 0 3 (Fin 2)\<rparr>"
  have ib: "in_bounds (0, 0)" by (simp add: in_bounds_def height_def width_def)
  have t: "take_best_action ?rob (explore_draw 3) = Inr 1"
    by (simp add: take_best_action_def np_random_choice_def Robot_init_def)
  have one: "(1::nat) \<noteq> 0" by simp
  have nn: "\<forall>k<4. Q_table ?rob (nat (fst (0, 0))) (nat (snd (0, 0))) k \<noteq> NaN"
    by (simp add: Robot_init_def set3_def)
  have c: "choose_action ?rob (0, 0) (explore_draw 3) = Inr 1"
    using t ib
    by (simp add: choose_action_def q_row_in_bounds np_argmax_def Robot_init_def set3_def)
  show ?thesis
    using exploit_picks_first_max [OF ib t one nn] ib t c by simp
qed

subsection \<open>The bootstrap value\<close>


lemma Max_insert_max:
  fixes x y :: real
  assumes "finite S"
  shows "Max (insert (max x y) S) = Max (insert x (insert y S))"
  using assms by (cases "S = {}") (simp_all add: max.assoc)

lemma scan_Fin:
  assumes "in_bounds s" and "\<forall>a \<in> set as. a < 4"
  shows "max_reachable_q_scan (\<lambda>r c a. Fin (q r c a)) A s as (Fin x)
         = Inr (Fin (Max (insert x (set (map (q (nat (fst s)) (nat (snd s)))
                                           (filter (legal A s) as))))))"
  using assms(2)
proof (induction as arbitrary: x)
  case Nil
  then show ?case by simp
next
  case (Cons a as)
  have a: "a < 4" and as: "\<forall>a \<in> set as. a < 4" using Cons.prems by auto
  let ?S = "set (map (q (nat (fst s)) (nat (snd s))) (filter (legal A s) as))"
  let ?qa = "q (nat (fst s)) (nat (snd s)) a"
  show ?case
  proof (cases "legal A s a")
    case True
    have m: "(if fl_gt (Fin ?qa) (Fin x) then Fin ?qa else Fin x) = Fin (max x ?qa)"
      by auto
    have "max_reachable_q_scan (\<lambda>r c a. Fin (q r c a)) A s (a # as) (Fin x)
          = max_reachable_q_scan (\<lambda>r c a. Fin (q r c a)) A s as
              (if fl_gt (Fin ?qa) (Fin x) then Fin ?qa else Fin x)"
      using True assms(1) a by (simp add: get3_in_bounds legal_def)
    also have "\<dots> = max_reachable_q_scan (\<lambda>r c a. Fin (q r c a)) A s as (Fin (max x ?qa))"
      by (simp only: m)
    also have "\<dots> = Inr (Fin (Max (insert (max x ?qa) ?S)))"
      by (rule Cons.IH [OF as])
    also have "Max (insert (max x ?qa) ?S) = Max (insert x (insert ?qa ?S))"
      by (rule Max_insert_max) simp
    also have "insert ?qa ?S
               = set (map (q (nat (fst s)) (nat (snd s))) (filter (legal A s) (a # as)))"
      using True by simp
    finally show ?thesis .
  next
    case False
    have "max_reachable_q_scan (\<lambda>r c a. Fin (q r c a)) A s (a # as) (Fin x)
          = max_reachable_q_scan (\<lambda>r c a. Fin (q r c a)) A s as (Fin x)"
      using False assms(1) a by (simp add: get3_in_bounds legal_def)
    also have "\<dots> = Inr (Fin (Max (insert x ?S)))"
      by (rule Cons.IH [OF as])
    also have "?S = set (map (q (nat (fst s)) (nat (snd s))) (filter (legal A s) (a # as)))"
      using False by simp
    finally show ?thesis .
  qed
qed

lemma scan_NInf:
  assumes "in_bounds s" and "\<forall>a \<in> set as. a < 4" and "filter (legal A s) as \<noteq> []"
  shows "max_reachable_q_scan (\<lambda>r c a. Fin (q r c a)) A s as NInf
         = Inr (Fin (Max (set (map (q (nat (fst s)) (nat (snd s))) (filter (legal A s) as)))))"
  using assms(2,3)
proof (induction as)
  case Nil
  then show ?case by simp
next
  case (Cons a as)
  have a: "a < 4" and as: "\<forall>a \<in> set as. a < 4" using Cons.prems by auto
  show ?case
  proof (cases "legal A s a")
    case True
    then show ?thesis
      using assms(1) a scan_Fin [OF assms(1) as, of q A "q (nat (fst s)) (nat (snd s)) a"]
      by (simp add: get3_in_bounds legal_def)
  next
    case False
    then have "filter (legal A s) as \<noteq> []" using Cons.prems(2) by simp
    from Cons.IH [OF as this] show ?thesis
      using False assms(1) a by (simp add: get3_in_bounds legal_def)
  qed
qed

lemma max_reachable_q_V:
  assumes "in_bounds s" and "actions rob = [0, 1, 2, 3]"
      and "Q_table rob = (\<lambda>r c a. Fin (q r c a))" and "legal_actions A s \<noteq> []"
  shows "max_reachable_q rob s A = Inr (Fin (V q A s))"
proof -
  have "\<forall>a \<in> set [0, 1, 2, 3 :: nat]. a < 4" by simp
  from scan_NInf [OF assms(1) this, of A q] assms(4)
  show ?thesis
    by (simp add: max_reachable_q_def assms(2,3) V_def legal_actions_def)
qed


text \<open>Under the constructed mask every cell of the grid has a legal action.\<close>

lemma mask_open:
  "allowed_actions Environment_init 4 c 0 = 1"
  "c \<noteq> 4 \<Longrightarrow> allowed_actions Environment_init 0 c 3 = 1"
  "allowed_actions Environment_init 0 4 1 = 1"
  "1 \<le> r \<Longrightarrow> r < 4 \<Longrightarrow> \<not> (r = 1 \<and> c = 2) \<Longrightarrow> allowed_actions Environment_init r c 2 = 1"
  "allowed_actions Environment_init 1 2 0 = 1"
  by (simp_all add: allowed_init)

lemma some_legal:
  assumes "in_bounds s"
  shows "legal_actions (allowed_actions Environment_init) s \<noteq> []"
proof -
  let ?r = "nat (fst s)" and ?c = "nat (snd s)"
  have r: "?r < 5" using assms by (auto simp: in_bounds_def height_def)
  have "\<exists>a<4. allowed_actions Environment_init ?r ?c a \<noteq> 0"
  proof -
    consider "?r = 4" | "?r = 0" "?c \<noteq> 4" | "?r = 0" "?c = 4"
      | "1 \<le> ?r" "?r < 4" "\<not> (?r = 1 \<and> ?c = 2)" | "?r = 1" "?c = 2"
      using r by linarith
    then show ?thesis
    proof cases
      case 1 then show ?thesis using mask_open(1) [of ?c] by (intro exI [of _ 0]) simp
    next
      case 2 then show ?thesis using mask_open(2) [of ?c] by (intro exI [of _ 3]) simp
    next
      case 3 then show ?thesis using mask_open(3) by (intro exI [of _ 1]) simp
    next
      case 4 then show ?thesis using mask_open(4) [of ?r ?c] by (intro exI [of _ 2]) simp
    next
      case 5 then show ?thesis using mask_open(5) by (intro exI [of _ 0]) simp
    qed
  qed
  then obtain a where "a < 4" "legal (allowed_actions Environment_init) s a"
    by (auto simp: legal_def)
  then have "a \<in> set (legal_actions (allowed_actions Environment_init) s)"
    by (auto simp: legal_actions_def dest!: less4_cases)
  then show ?thesis by auto
qed

lemma choose_action_total:
  assumes "in_bounds s" and "valid_step rob d" and "Q_table rob = (\<lambda>r c a. Fin (q r c a))"
  shows "\<exists>a<4. choose_action rob s d = Inr a"
proof -
  have e: "0 \<le> epsilon rob" "epsilon rob \<le> 1" "unit_draw (d_best d)"
    using assms(2) by (simp_all add: valid_step_def)
  let ?row = "map (Q_table rob (nat (fst s)) (nat (snd s))) [0, 1, 2, 3]"
  have "NaN \<notin> set ?row" "?row \<noteq> []" by (simp_all add: assms(3))
  from np_argmax_first_max [OF this]
  obtain a where "np_argmax ?row = Inr a" "a < 4" by auto
  then show ?thesis
    using assms(1)
    by (simp add: choose_action_def take_best_eval [OF e] q_row_in_bounds random_integers_range)
qed

subsection \<open>The Bellman backup\<close>

text \<open>
  C1. Every step (no condition is put on \<open>game_over\<close>, so the terminating step is
  included) returns and performs one backup: the Q-table after \<^verbatim>\<open>update_bot\<close> holds
  \<open>old + alpha * (reward + gamma * V(new_state) - old)\<close> at the entry of the pre-call state
  and the chosen action, and at every other entry what it held before. \<open>V\<close> is the maximum
  of the Q-values before the update over the actions that the Legality Mask marks legal
  from the new state. Stated for the constructed environment, a Q-table of finite entries
  and valid draws.
\<close>

theorem update_bot_bellman:
  assumes "as_constructed env" and "in_bounds (robot_state env)"
      and "actions rob = [0, 1, 2, 3]" and "Q_table rob = (\<lambda>r c a. Fin (q r c a))"
      and "valid_step rob d"
  shows "\<exists>action env' s' reward fin.
           action < 4
         \<and> choose_action rob (robot_state env) d = Inr action
         \<and> receive_action env action (d_kernel d) = Inr (env', s', reward, fin)
         \<and> update_bot rob env d =
             Inr (rob\<lparr>game_over := fin,
                      total_reward := total_reward rob + reward,
                      Q_table := (\<lambda>i j k.
                        if i = nat (fst (robot_state env)) \<and> j = nat (snd (robot_state env))
                           \<and> k = action
                        then Fin (q (nat (fst (robot_state env))) (nat (snd (robot_state env)))
                                    action
                                  + alpha rob
                                    * (of_int reward + gamma rob * V q (allowed_actions env) s'
                                       - q (nat (fst (robot_state env)))
                                           (nat (snd (robot_state env))) action))
                        else Q_table rob i j k)\<rparr>,
                  env')"
proof -
  let ?s = "robot_state env"
  obtain action where act: "action < 4" "choose_action rob ?s d = Inr action"
    using choose_action_total [OF assms(2,5,4)] by blast
  have k: "unit_draws4 (d_kernel d)" using assms(5) by (simp add: valid_step_def)
  obtain env' reward fin where rec:
    "receive_action env action (d_kernel d) = Inr (env', robot_state env', reward, fin)"
    "as_constructed env'" "in_bounds (robot_state env')"
    using receive_action_step [OF assms(1,2) act(1) k] by blast
  have mask: "allowed_actions env' = allowed_actions env"
    using assms(1) rec(2) by (simp add: as_constructed_def)
  have "legal_actions (allowed_actions env') (robot_state env') \<noteq> []"
    using some_legal [OF rec(3)] rec(2) by (simp add: as_constructed_def)
  then have v: "\<And>g t. max_reachable_q (rob\<lparr>game_over := g, total_reward := t\<rparr>)
                  (robot_state env') (allowed_actions env')
                = Inr (Fin (V q (allowed_actions env') (robot_state env')))"
    using rec(3) assms(3,4) by (intro max_reachable_q_V) simp_all
  have "update_bot rob env d =
          Inr (rob\<lparr>game_over := fin,
                   total_reward := total_reward rob + reward,
                   Q_table := set3 (Q_table rob) (nat (fst ?s)) (nat (snd ?s)) action
                     (Fin (q (nat (fst ?s)) (nat (snd ?s)) action
                           + alpha rob
                             * (of_int reward
                                + gamma rob * V q (allowed_actions env) (robot_state env')
                                - q (nat (fst ?s)) (nat (snd ?s)) action)))\<rparr>,
               env')"
    using act rec(1) v mask
    by (simp add: update_bot_def Let_def index3_in_bounds [OF assms(2) act(1)] assms(4) fl_sub_def)
  then have "update_bot rob env d =
          Inr (rob\<lparr>game_over := fin,
                   total_reward := total_reward rob + reward,
                   Q_table := (\<lambda>i j k.
                     if i = nat (fst ?s) \<and> j = nat (snd ?s) \<and> k = action
                     then Fin (q (nat (fst ?s)) (nat (snd ?s)) action
                               + alpha rob
                                 * (of_int reward
                                    + gamma rob * V q (allowed_actions env) (robot_state env')
                                    - q (nat (fst ?s)) (nat (snd ?s)) action))
                     else Q_table rob i j k)\<rparr>,
               env')"
    by (simp only: set3_def)
  with act rec(1) show ?thesis by blast
qed


lemma in_bounds_cells:
  "in_bounds (0, 0)" "in_bounds (2, 1)" "in_bounds (1, 1)"
  by (simp_all add: in_bounds_def height_def width_def)

text \<open>With an exploration rate of at least 1/2, the sample 1/2 explores.\<close>

lemma explores:
  assumes "1/2 \<le> epsilon rob" and "epsilon rob \<le> 1"
  shows "valid_step rob (explore_draw k)"
    and "take_best_action rob (explore_draw k) = Inr 0"
    and "choose_action rob s (explore_draw k) = Inr (k mod 4)"
  using assms
  by (simp_all add: valid_step_def unit_draw_def half_draws np_random_integers_def
        choose_action_def take_best_action_def np_random_choice_def)

lemma main_robot_epsilon: "1/2 \<le> epsilon main_robot" "epsilon main_robot \<le> 1"
  by (simp_all add: Robot_init_def)

text \<open>
  The instance is a terminating step: from \<open>(2, 1)\<close> up into the terminal cell \<open>(1, 1)\<close>,
  whose only legal action is down. The Q-table holds 7 for the illegal action up of
  \<open>(1, 1)\<close>, 3 for its legal action down and \<open>-1\<close> elsewhere: the bootstrap value is 3,
  not the raw maximum 7 of the row, the entry of \<open>(2, 1)\<close> and up becomes
  \<open>-1 + 0.1 * (-101 + 0.98 * 3 + 1) = -10.706\<close>, and every other entry is as before.
\<close>

theorem update_bot_bellman_witness:
  "as_constructed (Environment_init\<lparr>robot_state := (2, 1)\<rparr>)
   \<and> in_bounds (robot_state (Environment_init\<lparr>robot_state := (2, 1)\<rparr>))
   \<and> valid_step
        (main_robot\<lparr>Q_table := (\<lambda>i j k. Fin (if i = 1 \<and> j = 1 \<and> k = 0 then 7
                                              else if i = 1 \<and> j = 1 \<and> k = 2 then 3 else - 1))\<rparr>)
        (explore_draw 0)
   \<and> V (\<lambda>i j k. if i = 1 \<and> j = 1 \<and> k = 0 then 7 else if i = 1 \<and> j = 1 \<and> k = 2 then 3 else - 1)
        (allowed_actions Environment_init) (1, 1) = 3
   \<and> Max (set (map (\<lambda>k::nat. if k = 0 then 7 else if k = 2 then 3 else - 1 :: real)
                 [0, 1, 2, 3])) = 7
   \<and> update_bot
        (main_robot\<lparr>Q_table := (\<lambda>i j k. Fin (if i = 1 \<and> j = 1 \<and> k = 0 then 7
                                              else if i = 1 \<and> j = 1 \<and> k = 2 then 3 else - 1))\<rparr>)
        (Environment_init\<lparr>robot_state := (2, 1)\<rparr>) (explore_draw 0)
       = Inr (main_robot\<lparr>game_over := True, total_reward := - 101,
                Q_table := (\<lambda>i j k. Fin (if i = 2 \<and> j = 1 \<and> k = 0 then - 5353 / 500
                                         else if i = 1 \<and> j = 1 \<and> k = 0 then 7
                                         else if i = 1 \<and> j = 1 \<and> k = 2 then 3 else - 1))\<rparr>,
              Environment_init\<lparr>robot_state := (1, 1)\<rparr>)"
proof -
  let ?env = "Environment_init\<lparr>robot_state := (2, 1)\<rparr>"
  let ?q = "\<lambda>i j k::nat. if i = 1 \<and> j = 1 \<and> k = 0 then 7
                         else if i = 1 \<and> j = 1 \<and> k = 2 then 3 else - 1 :: real"
  let ?rob = "main_robot\<lparr>Q_table := (\<lambda>i j k. Fin (?q i j k))\<rparr>"
  have c: "as_constructed ?env" by simp
  have ib: "in_bounds (robot_state ?env)" by (simp add: in_bounds_cells)
  have ac: "actions ?rob = [0, 1, 2, 3]" by (simp add: Robot_init_def)
  have q: "Q_table ?rob = (\<lambda>r c a. Fin (?q r c a))" by simp
  have eps: "1/2 \<le> epsilon ?rob" "epsilon ?rob \<le> 1" by (simp_all add: Robot_init_def)
  have vs: "valid_step ?rob (explore_draw 0)" by (rule explores(1) [OF eps])
  from update_bot_bellman [OF c ib ac q vs]
  obtain action env' s' reward fin where r:
    "choose_action ?rob (robot_state ?env) (explore_draw 0) = Inr action"
    "receive_action ?env action (d_kernel (explore_draw 0)) = Inr (env', s', reward, fin)"
    "update_bot ?rob ?env (explore_draw 0) =
       Inr (?rob\<lparr>game_over := fin,
                total_reward := total_reward ?rob + reward,
                Q_table := (\<lambda>i j k.
                  if i = nat (fst (robot_state ?env)) \<and> j = nat (snd (robot_state ?env))
                     \<and> k = action
                  then Fin (?q (nat (fst (robot_state ?env))) (nat (snd (robot_state ?env)))
                              action
                            + alpha ?rob
                              * (of_int reward + gamma ?rob * V ?q (allowed_actions ?env) s'
                                 - ?q (nat (fst (robot_state ?env)))
                                      (nat (snd (robot_state ?env))) action))
                  else Q_table ?rob i j k)\<rparr>,
            env')"
    by blast
  have a: "action = 0"
    using r(1) explores(3) [OF eps, of "(2, 1)" 0] by simp
  have l: "legal (allowed_actions ?env) (robot_state ?env) 0"
    by (simp add: legal_def allowed_init)
  have "receive_action ?env 0 half4
        = Inr (Environment_init\<lparr>robot_state := (1, 1)\<rparr>, (1, 1), - 101, True)"
    using l by (simp add: receive_action_unfold [OF ib half_draws(2)] offset_def
                  get2_in_bounds in_bounds_cells board_init final_init)
  then have o: "env' = Environment_init\<lparr>robot_state := (1, 1)\<rparr>" "s' = (1, 1)"
      "reward = - 101" "fin = True"
    using r(2) by (auto simp: a)
  have v: "V ?q (allowed_actions Environment_init) (1, 1) = 3"
    by (simp add: V_def legal_actions_def legal_def allowed_init)
  have raw: "Max (set (map (\<lambda>k::nat. if k = 0 then 7 else if k = 2 then 3 else - 1 :: real)
                         [0, 1, 2, 3])) = 7"
    by simp
  have u: "update_bot ?rob ?env (explore_draw 0)
           = Inr (main_robot\<lparr>game_over := True, total_reward := - 101,
                    Q_table := (\<lambda>i j k. Fin (if i = 2 \<and> j = 1 \<and> k = 0 then - 5353 / 500
                                         else if i = 1 \<and> j = 1 \<and> k = 0 then 7
                                         else if i = 1 \<and> j = 1 \<and> k = 2 then 3 else - 1))\<rparr>,
                  Environment_init\<lparr>robot_state := (1, 1)\<rparr>)"
    using r(3) v by (simp add: a o Robot_init_def fun_eq_iff)
  from c ib vs v raw u show ?thesis by blast
qed



subsection \<open>Episodes\<close>

lemma update_bot_keeps:
  assumes "update_bot rob env d = Inr (rob', env')"
  shows "epsilon rob' = epsilon rob \<and> epsilon_decrease rob' = epsilon_decrease rob
         \<and> iteration rob' = iteration rob"
  using assms
  by (auto simp: update_bot_def bind_err_def Let_def split: sum.splits prod.splits)

lemma run_loop_keeps:
  assumes "run_loop rob env ds = Some (Inr (rob', env'))"
  shows "epsilon rob' = epsilon rob \<and> epsilon_decrease rob' = epsilon_decrease rob
         \<and> iteration rob' = iteration rob"
  using assms
proof (induction rob env ds rule: run_loop.induct)
  case (1 rob env ds)
  show ?case
  proof (cases "game_over rob")
    case True
    then show ?thesis using "1.prems" by simp
  next
    case False
    then obtain d ds' where ds: "ds = d # ds'"
      using "1.prems" by (cases ds) auto
    obtain rob1 env1 where u: "update_bot rob env d = Inr (rob1, env1)"
      using "1.prems" False by (auto simp: ds split: sum.splits)
    have "run_loop rob1 env1 ds' = Some (Inr (rob', env'))"
      using "1.prems" False u by (simp add: ds)
    from "1.IH" [OF False ds u refl this] update_bot_keeps [OF u]
    show ?thesis by simp
  qed
qed

lemma run_bot_epsilon:
  assumes "run_bot rob env plot ds = Some (Inr (rob', env'))"
  shows "epsilon rob' = max (epsilon rob - epsilon_decrease rob) 0
         \<and> epsilon_decrease rob' = epsilon_decrease rob
         \<and> iteration rob' = iteration rob + 1"
  using run_loop_keeps [OF assms [unfolded run_bot_def]]
  by (simp add: restart_def Let_def)

lemma main_loop_epsilon:
  assumes "0 \<le> epsilon rob" and "0 \<le> epsilon_decrease rob"
      and "main_loop rob env i dss = Some (Inr (rob', env'))"
  shows "0 \<le> epsilon rob' \<and> epsilon rob' \<le> epsilon rob
         \<and> epsilon_decrease rob' = epsilon_decrease rob
         \<and> iteration rob' = iteration rob + int (length dss)"
  using assms
proof (induction dss arbitrary: rob env i)
  case Nil
  then show ?case by simp
next
  case (Cons ds dss)
  obtain rob1 env1 where e: "main_episode rob env i ds = Some (Inr (rob1, env1))"
    using Cons.prems(3) by (auto split: option.splits sum.splits)
  have r: "main_loop rob1 env1 (Suc i) dss = Some (Inr (rob', env'))"
    using Cons.prems(3) e by simp
  have k: "epsilon rob1 = max (epsilon rob - epsilon_decrease rob) 0"
      "epsilon_decrease rob1 = epsilon_decrease rob" "iteration rob1 = iteration rob + 1"
    using run_bot_epsilon [OF e [unfolded main_episode_def]] by simp_all
  have "0 \<le> epsilon rob1" "0 \<le> epsilon_decrease rob1"
    using k Cons.prems(2) by simp_all
  from Cons.IH [OF this r] k Cons.prems(1,2)
  show ?case by (auto simp: max_def split: if_splits)
qed

lemma scan_total:
  assumes "in_bounds s" and "\<forall>a \<in> set as. a < 4"
  shows "\<exists>v. max_reachable_q_scan Q A s as m = Inr v"
  using assms(2)
proof (induction as arbitrary: m)
  case Nil
  then show ?case by simp
next
  case (Cons a as)
  then show ?case
    using assms(1) by (simp add: get3_in_bounds)
qed

text \<open>An exploring step in the constructed environment, whatever the Q-table holds.\<close>

lemma explore_step:
  assumes "1/2 \<le> epsilon rob" and "epsilon rob \<le> 1" and "actions rob = [0, 1, 2, 3]"
      and "as_constructed env" and "in_bounds (robot_state env)" and "k < 4"
  shows "\<exists>Q' t. update_bot rob env (explore_draw k) =
           Inr (rob\<lparr>game_over := (legal (allowed_actions env) (robot_state env) k
                                  \<and> offset (robot_state env) k \<in> set (final_states env)),
                    total_reward := t, Q_table := Q'\<rparr>,
                if legal (allowed_actions env) (robot_state env) k
                then env\<lparr>robot_state := offset (robot_state env) k\<rparr> else env)"
proof -
  let ?s = "robot_state env"
  have ra: "randomized_action k half4 = Inr k"
    using assms(6) half_draws by (auto dest!: less4_cases)
  have c: "choose_action rob ?s (explore_draw k) = Inr k"
    using explores(3) [OF assms(1,2), of ?s k] assms(6) by simp
  have tot: "\<And>g t s'. in_bounds s' \<Longrightarrow>
               \<exists>v. max_reachable_q (rob\<lparr>game_over := g, total_reward := t\<rparr>) s'
                      (allowed_actions env) = Inr v"
    using scan_total [of _ "[0, 1, 2, 3]"] by (simp add: max_reachable_q_def assms(3))
  show ?thesis
  proof (cases "legal (allowed_actions env) ?s k")
    case True
    then have "legal (allowed_actions Environment_init) ?s k"
      using assms(4) by (simp add: as_constructed_def)
    with assms(5,6) have ib: "in_bounds (offset ?s k)" by (rule legal_move_in_bounds)
    obtain v where v: "max_reachable_q
        (rob\<lparr>game_over := offset ?s k \<in> set (final_states env),
             total_reward := total_reward rob
               + (board_rewards env (nat (fst (offset ?s k))) (nat (snd (offset ?s k))) - 1)\<rparr>)
        (offset ?s k) (allowed_actions env) = Inr v"
      using tot [OF ib] by blast
    show ?thesis
      using True c v
      by (simp add: update_bot_def Let_def receive_action_unfold [OF assms(5) ra assms(6)]
            get2_in_bounds [OF ib] index3_in_bounds [OF assms(5,6)])
         (rule exI, rule exI, rule refl)
  next
    case False
    obtain v where v: "max_reachable_q
        (rob\<lparr>game_over := False, total_reward := total_reward rob + (- 1)\<rparr>)
        ?s (allowed_actions env) = Inr v"
      using tot [OF assms(5)] by blast
    show ?thesis
      using False c v
      by (simp add: update_bot_def Let_def receive_action_unfold [OF assms(5) ra assms(6)]
            index3_in_bounds [OF assms(5,6)])
         (rule exI, rule exI, rule refl)
  qed
qed

text \<open>The shortest episode from the start cell: right, right, down into \<open>(1, 2)\<close>.\<close>

lemma short_episode:
  assumes "1/2 \<le> epsilon rob" and "epsilon rob \<le> 1" and "actions rob = [0, 1, 2, 3]"
      and "\<not> game_over rob"
  shows "\<exists>Q' t. run_loop rob (Environment_init\<lparr>robot_state := (0, 0)\<rparr>)
                  [explore_draw 3, explore_draw 3, explore_draw 2]
           = Some (Inr (rob\<lparr>game_over := True, total_reward := t, Q_table := Q'\<rparr>,
                        Environment_init\<lparr>robot_state := (1, 2)\<rparr>))"
proof -
  have cells: "in_bounds (0, 0)" "in_bounds (0, 1)" "in_bounds (0, 2)"
    by (simp_all add: in_bounds_def height_def width_def)
  obtain Q1 t1 where 1:
    "update_bot rob (Environment_init\<lparr>robot_state := (0, 0)\<rparr>) (explore_draw 3)
     = Inr (rob\<lparr>game_over := False, total_reward := t1, Q_table := Q1\<rparr>,
            Environment_init\<lparr>robot_state := (0, 1)\<rparr>)"
    using explore_step [OF assms(1,2,3), of "Environment_init\<lparr>robot_state := (0, 0)\<rparr>" 3]
    by (auto simp: cells legal_def allowed_init offset_def final_init)
  let ?r1 = "rob\<lparr>game_over := False, total_reward := t1, Q_table := Q1\<rparr>"
  have r1: "1/2 \<le> epsilon ?r1" "epsilon ?r1 \<le> 1" "actions ?r1 = [0, 1, 2, 3]"
    using assms by simp_all
  obtain Q2 t2 where 2:
    "update_bot ?r1 (Environment_init\<lparr>robot_state := (0, 1)\<rparr>) (explore_draw 3)
     = Inr (rob\<lparr>game_over := False, total_reward := t2, Q_table := Q2\<rparr>,
            Environment_init\<lparr>robot_state := (0, 2)\<rparr>)"
    using explore_step [OF r1, of "Environment_init\<lparr>robot_state := (0, 1)\<rparr>" 3]
    by (auto simp: cells legal_def allowed_init offset_def final_init)
  let ?r2 = "rob\<lparr>game_over := False, total_reward := t2, Q_table := Q2\<rparr>"
  have r2: "1/2 \<le> epsilon ?r2" "epsilon ?r2 \<le> 1" "actions ?r2 = [0, 1, 2, 3]"
    using assms by simp_all
  obtain Q3 t3 where 3:
    "update_bot ?r2 (Environment_init\<lparr>robot_state := (0, 2)\<rparr>) (explore_draw 2)
     = Inr (rob\<lparr>game_over := True, total_reward := t3, Q_table := Q3\<rparr>,
            Environment_init\<lparr>robot_state := (1, 2)\<rparr>)"
    using explore_step [OF r2, of "Environment_init\<lparr>robot_state := (0, 2)\<rparr>" 2]
    by (auto simp: cells legal_def allowed_init offset_def final_init)
  show ?thesis
    using assms(4) 1 2 3 by simp (rule exI, rule exI, rule refl)
qed

text \<open>
  C8. \<^verbatim>\<open>restart\<close> adds 1 to the iteration counter, zeroes the accumulated reward, clears
  \<^verbatim>\<open>game_over\<close> and sets epsilon to \<open>max (epsilon - epsilon_decrease) 0\<close>. Consequently,
  for a robot constructed with the parameters the interface allows (a non-negative
  exploration rate and a non-negative decay step), after any sequence of episodes of the
  loop of \<^verbatim>\<open>main\<close> epsilon is non-negative and not above its value before the sequence,
  and the iteration counter has advanced by the number of episodes.
\<close>

theorem restart_epsilon_schedule:
  "iteration (restart rob) = iteration rob + 1
   \<and> total_reward (restart rob) = 0
   \<and> \<not> game_over (restart rob)
   \<and> epsilon (restart rob) = max (epsilon rob - epsilon_decrease rob) 0
   \<and> (0 \<le> epsilon rob \<and> 0 \<le> epsilon_decrease rob
        \<and> main_loop rob env i dss = Some (Inr (rob', env'))
      \<longrightarrow> 0 \<le> epsilon rob' \<and> epsilon rob' \<le> epsilon rob
          \<and> iteration rob' = iteration rob + int (length dss))"
  using main_loop_epsilon [of rob env i dss rob' env']
  by (simp add: restart_def Let_def)

text \<open>The instance: the first episode of \<^verbatim>\<open>main\<close>, run with the draws of the shortest
  episode.\<close>

theorem restart_epsilon_schedule_witness:
  "0 \<le> epsilon main_robot \<and> 0 \<le> epsilon_decrease main_robot
   \<and> (\<exists>rob' env'. main_loop main_robot Environment_init 0
                      [[explore_draw 3, explore_draw 3, explore_draw 2]]
                    = Some (Inr (rob', env'))
         \<and> epsilon rob' = 2999 / 3000 \<and> epsilon rob' \<le> epsilon main_robot
         \<and> iteration rob' = 1)"
proof -
  let ?r0 = "restart (main_robot\<lparr>plotting := False\<rparr>)"
  have r0: "1/2 \<le> epsilon ?r0" "epsilon ?r0 \<le> 1" "actions ?r0 = [0, 1, 2, 3]"
      "\<not> game_over ?r0"
    by (simp_all add: restart_def Let_def Robot_init_def)
  from short_episode [OF r0] obtain Q' t where
    "run_loop ?r0 (Environment_init\<lparr>robot_state := (0, 0)\<rparr>)
        [explore_draw 3, explore_draw 3, explore_draw 2]
     = Some (Inr (?r0\<lparr>game_over := True, total_reward := t, Q_table := Q'\<rparr>,
                  Environment_init\<lparr>robot_state := (1, 2)\<rparr>))"
    by blast
  then have m: "main_loop main_robot Environment_init 0
                  [[explore_draw 3, explore_draw 3, explore_draw 2]]
                = Some (Inr (?r0\<lparr>game_over := True, total_reward := t, Q_table := Q'\<rparr>,
                             Environment_init\<lparr>robot_state := (1, 2)\<rparr>))"
    by (simp add: main_episode_def run_bot_def reset_def)
  have e: "0 \<le> epsilon main_robot" "0 \<le> epsilon_decrease main_robot"
    by (simp_all add: Robot_init_def)
  have v: "epsilon (?r0\<lparr>game_over := True, total_reward := t, Q_table := Q'\<rparr>) = 2999 / 3000"
    by (simp add: restart_def Let_def Robot_init_def)
  from restart_epsilon_schedule
         [of main_robot Environment_init 0 "[[explore_draw 3, explore_draw 3, explore_draw 2]]"
             "?r0\<lparr>game_over := True, total_reward := t, Q_table := Q'\<rparr>"
             "Environment_init\<lparr>robot_state := (1, 2)\<rparr>"]
       e m v
  have "epsilon (?r0\<lparr>game_over := True, total_reward := t, Q_table := Q'\<rparr>)
          \<le> epsilon main_robot
        \<and> iteration (?r0\<lparr>game_over := True, total_reward := t, Q_table := Q'\<rparr>) = 1"
    by (simp add: Robot_init_def)
  with e m v show ?thesis by blast
qed

subsection \<open>Who resets the environment\<close>

text \<open>
  C10, as stated, fails: \<^verbatim>\<open>run_bot\<close> never calls \<^verbatim>\<open>reset\<close>. Handed an environment whose
  agent stands on \<open>(2, 1)\<close>, its first step executes there (it moves up into the terminal
  cell \<open>(1, 1)\<close> and writes the Q-table entry of \<open>(2, 1)\<close>); had the environment been
  reset first, the same draws would leave the episode unfinished at the start cell.
\<close>

theorem run_bot_does_not_reset:
  "run_bot main_robot (Environment_init\<lparr>robot_state := (2, 1)\<rparr>) False [explore_draw 0]
     = Some (Inr (main_robot\<lparr>epsilon := 2999 / 3000, iteration := 1, game_over := True,
                    total_reward := - 101,
                    Q_table := set3 (Q_table main_robot) 2 1 0 (Fin (- 5549 / 500))\<rparr>,
                  Environment_init\<lparr>robot_state := (1, 1)\<rparr>))
   \<and> run_bot main_robot (reset (Environment_init\<lparr>robot_state := (2, 1)\<rparr>)) False
         [explore_draw 0] = None"
proof -
  let ?r0 = "restart (main_robot\<lparr>plotting := False\<rparr>)"
  have e: "1/2 \<le> epsilon ?r0" "epsilon ?r0 \<le> 1"
    by (simp_all add: restart_def Let_def Robot_init_def)
  have g: "\<not> game_over ?r0" by (simp add: restart_def Let_def)
  have cells: "in_bounds (robot_state (Environment_init\<lparr>robot_state := (2, 1)\<rparr>))"
      "in_bounds (robot_state (Environment_init\<lparr>robot_state := (0, 0)\<rparr>))"
    by (simp_all add: in_bounds_cells)
  have rec1: "receive_action (Environment_init\<lparr>robot_state := (2, 1)\<rparr>) 0 half4
        = Inr (Environment_init\<lparr>robot_state := (1, 1)\<rparr>, (1, 1), - 101, True)"
    by (simp add: receive_action_unfold [OF cells(1) half_draws(2)] offset_def legal_def
          allowed_init get2_in_bounds in_bounds_cells board_init final_init)
  have rec2: "receive_action (Environment_init\<lparr>robot_state := (0, 0)\<rparr>) 0 half4
        = Inr (Environment_init\<lparr>robot_state := (0, 0)\<rparr>, (0, 0), - 1, False)"
    by (simp add: receive_action_unfold [OF cells(2) half_draws(2)] legal_def allowed_init)
  have m1: "\<And>g t. max_reachable_q (?r0\<lparr>game_over := g, total_reward := t\<rparr>) (1, 1)
             (allowed_actions Environment_init) = Inr (Fin (- 1))"
    by (simp add: max_reachable_q_def restart_def Let_def Robot_init_def get3_in_bounds
          in_bounds_cells allowed_init)
  have m2: "\<And>g t. max_reachable_q (?r0\<lparr>game_over := g, total_reward := t\<rparr>) (0, 0)
             (allowed_actions Environment_init) = Inr (Fin (- 1))"
    by (simp add: max_reachable_q_def restart_def Let_def Robot_init_def get3_in_bounds
          in_bounds_cells allowed_init)
  have u1: "update_bot ?r0 (Environment_init\<lparr>robot_state := (2, 1)\<rparr>) (explore_draw 0)
        = Inr (main_robot\<lparr>epsilon := 2999 / 3000, iteration := 1, game_over := True,
                 total_reward := - 101,
                 Q_table := set3 (Q_table main_robot) 2 1 0 (Fin (- 5549 / 500))\<rparr>,
               Environment_init\<lparr>robot_state := (1, 1)\<rparr>)"
    using rec1 m1
    by (simp add: update_bot_def Let_def explores(3) index3_in_bounds in_bounds_cells
          fl_sub_def restart_def Robot_init_def)
  have u2: "\<exists>rob'. update_bot ?r0 (Environment_init\<lparr>robot_state := (0, 0)\<rparr>) (explore_draw 0)
        = Inr (rob', Environment_init\<lparr>robot_state := (0, 0)\<rparr>) \<and> \<not> game_over rob'"
    using rec2 m2
    by (simp add: update_bot_def Let_def explores(3) index3_in_bounds in_bounds_cells
          restart_def Robot_init_def)
  show ?thesis
    using u1 u2 g by (auto simp: run_bot_def reset_def)
qed

text \<open>
  C10, amended. \<^verbatim>\<open>run_bot\<close> itself does not reset the World Model: its first step is
  \<^verbatim>\<open>update_bot\<close> on the environment as it is handed in. It is the loop of \<^verbatim>\<open>main\<close> that
  calls \<^verbatim>\<open>env.reset()\<close> before every \<^verbatim>\<open>run_bot\<close>, so that in this loop the agent state is
  \<open>(0, 0)\<close> when the first step of an episode executes, and the episode does not depend
  on where the previous one ended.
\<close>

theorem main_episode_starts_at_origin:
  "run_bot rob env plot (d # ds)
     = (case update_bot (restart (rob\<lparr>plotting := plot\<rparr>)) env d of
          Inl e \<Rightarrow> Some (Inl e)
        | Inr (rob', env') \<Rightarrow> run_loop rob' env' ds)
   \<and> main_episode rob env i (d # ds)
     = (case update_bot (restart (rob\<lparr>plotting := 3000 \<le> i\<rparr>)) (reset env) d of
          Inl e \<Rightarrow> Some (Inl e)
        | Inr (rob', env') \<Rightarrow> run_loop rob' env' ds)
   \<and> robot_state (reset env) = (0, 0)
   \<and> main_episode rob (env\<lparr>robot_state := s\<rparr>) i ds = main_episode rob env i ds"
proof -
  have g: "\<And>p. \<not> game_over (restart (rob\<lparr>plotting := p\<rparr>))"
    by (simp add: restart_def Let_def)
  show ?thesis
    using g by (simp add: run_bot_def main_episode_def reset_def)
qed

end
